theory Spec2Isabelle
  imports Main "HOL-Library.Char_ord" "HOL-Library.List_Lexorder"
begin

section \<open>Characters and strings of the Python runtime\<close>

text \<open>
  Texts are Python \<open>str\<close> values. They are modelled as \<^typ>\<open>string\<close>, a character being its
  code point; the model therefore covers the code points 0 to 255, with Python's own
  classification of these code points (\<open>str.isspace\<close>, \<open>\s\<close>, \<open>\d\<close>, \<open>\w\<close>, \<open>str.lower\<close>).
\<close>

definition code :: "char \<Rightarrow> nat" where
  "code c = of_char c"

definition is_space :: "char \<Rightarrow> bool" where
  "is_space c = (let n = code c in (9 \<le> n \<and> n \<le> 13) \<or> (28 \<le> n \<and> n \<le> 32) \<or> n = 133 \<or> n = 160)"

definition is_digit :: "char \<Rightarrow> bool" where
  "is_digit c = (let n = code c in 48 \<le> n \<and> n \<le> 57)"

definition is_upper :: "char \<Rightarrow> bool" where
  "is_upper c = (let n = code c in 65 \<le> n \<and> n \<le> 90)"

definition is_lower :: "char \<Rightarrow> bool" where
  "is_lower c = (let n = code c in 97 \<le> n \<and> n \<le> 122)"

definition is_word :: "char \<Rightarrow> bool" where
  "is_word c = (let n = code c in
     is_digit c \<or> is_upper c \<or> is_lower c \<or> n = 95 \<or> n = 170 \<or> n = 178 \<or> n = 179 \<or> n = 181
     \<or> n = 185 \<or> n = 186 \<or> n = 188 \<or> n = 189 \<or> n = 190
     \<or> (192 \<le> n \<and> n \<le> 214) \<or> (216 \<le> n \<and> n \<le> 246) \<or> 248 \<le> n)"

definition lower_char :: "char \<Rightarrow> char" where
  "lower_char c = (let n = code c in
     if is_upper c \<or> (192 \<le> n \<and> n \<le> 222 \<and> n \<noteq> 215) then char_of (n + 32) else c)"

definition lower :: "string \<Rightarrow> string" where
  "lower s = map lower_char s"

definition strip :: "string \<Rightarrow> string" where
  "strip s = rev (dropWhile is_space (rev (dropWhile is_space s)))"

definition strip_chars :: "string \<Rightarrow> string \<Rightarrow> string" where
  "strip_chars cs s = rev (dropWhile (\<lambda>c. c \<in> set cs) (rev (dropWhile (\<lambda>c. c \<in> set cs) s)))"

definition startswith :: "string \<Rightarrow> string \<Rightarrow> bool" where
  "startswith s p = (take (length p) s = p)"

fun contains :: "string \<Rightarrow> string \<Rightarrow> bool" where
  "contains [] p = (p = [])"
| "contains (c # cs) p = (startswith (c # cs) p \<or> contains cs p)"

fun replace :: "string \<Rightarrow> string \<Rightarrow> string \<Rightarrow> string" where
  "replace old new [] = []"
| "replace old new (c # cs) =
     (if old \<noteq> [] \<and> startswith (c # cs) old
      then new @ replace old new (drop (length old - 1) cs)
      else c # replace old new cs)"

section \<open>Regular expressions\<close>

datatype atom = Lit char | Upper | Digit | Space | AnyChar | NotParen

datatype re =
    Atom atom
  | Seq re re
  | Alt re re
  | Star atom
  | Plus atom
  | PlusLazy atom
  | Opt re
  | Grp nat re
  | Eps
  | Bol
  | Eol
  | WordB

type_synonym caps = "(nat \<times> string) list"

fun atom_ok :: "bool \<Rightarrow> atom \<Rightarrow> char \<Rightarrow> bool" where
  "atom_ok ic (Lit p) c = (if ic then lower_char c = lower_char p else c = p)"
| "atom_ok ic Upper c = (is_upper c \<or> (ic \<and> is_lower c))"
| "atom_ok ic Digit c = is_digit c"
| "atom_ok ic Space c = is_space c"
| "atom_ok ic AnyChar c = (c \<noteq> CHR 0x0A)"
| "atom_ok ic NotParen c = (c \<noteq> CHR ''('' \<and> c \<noteq> CHR '')'')"

definition after :: "char option \<Rightarrow> string \<Rightarrow> char option" where
  "after prev c = (if c = [] then prev else Some (last c))"

definition word_opt :: "char option \<Rightarrow> bool" where
  "word_opt p = (case p of None \<Rightarrow> False | Some c \<Rightarrow> is_word c)"

definition next_char :: "string \<Rightarrow> char option" where
  "next_char s = (case s of [] \<Rightarrow> None | c # _ \<Rightarrow> Some c)"

fun rmatch :: "bool \<Rightarrow> re \<Rightarrow> char option \<Rightarrow> string \<Rightarrow> (string \<times> caps) list" where
  "rmatch ic (Atom a) prev s =
     (case s of [] \<Rightarrow> [] | c # _ \<Rightarrow> if atom_ok ic a c then [([c], [])] else [])"
| "rmatch ic (Seq r1 r2) prev s =
     concat (map (\<lambda>(c1, g1).
        map (\<lambda>(c2, g2). (c1 @ c2, g1 @ g2)) (rmatch ic r2 (after prev c1) (drop (length c1) s)))
       (rmatch ic r1 prev s))"
| "rmatch ic (Alt r1 r2) prev s = rmatch ic r1 prev s @ rmatch ic r2 prev s"
| "rmatch ic (Star a) prev s =
     (let run = takeWhile (atom_ok ic a) s in map (\<lambda>n. (take n run, [])) (rev [0..<Suc (length run)]))"
| "rmatch ic (Plus a) prev s =
     (let run = takeWhile (atom_ok ic a) s in map (\<lambda>n. (take n run, [])) (rev [1..<Suc (length run)]))"
| "rmatch ic (PlusLazy a) prev s =
     (let run = takeWhile (atom_ok ic a) s in map (\<lambda>n. (take n run, [])) [1..<Suc (length run)])"
| "rmatch ic (Opt r) prev s = rmatch ic r prev s @ [([], [])]"
| "rmatch ic (Grp k r) prev s = map (\<lambda>(c, g). (c, g @ [(k, c)])) (rmatch ic r prev s)"
| "rmatch ic Eps prev s = [([], [])]"
| "rmatch ic Bol prev s = (if prev = None then [([], [])] else [])"
| "rmatch ic Eol prev s = (if s = [] \<or> s = [CHR 0x0A] then [([], [])] else [])"
| "rmatch ic WordB prev s = (if word_opt prev \<noteq> word_opt (next_char s) then [([], [])] else [])"

fun seqs :: "re list \<Rightarrow> re" where
  "seqs [] = Eps"
| "seqs [r] = r"
| "seqs (r # rs) = Seq r (seqs rs)"

definition lit :: "string \<Rightarrow> re" where
  "lit s = seqs (map (\<lambda>c. Atom (Lit c)) s)"


definition times4 :: "atom \<Rightarrow> re" where
  "times4 a = Seq (Atom a) (Seq (Atom a) (Seq (Atom a) (Atom a)))"

text \<open>
  \<open>re.search\<close>: the leftmost position at which the pattern matches, with the match the
  backtracking order prefers there. The result is the text before the match, the matched
  text, the captured groups and the text after the match.
\<close>

type_synonym rmatch = "string \<times> string \<times> caps \<times> string"

fun search_at :: "bool \<Rightarrow> re \<Rightarrow> string \<Rightarrow> string \<Rightarrow> rmatch option" where
  "search_at ic r pre [] =
     (case rmatch ic r (after None pre) [] of
        (c, g) # _ \<Rightarrow> Some (pre, c, g, [])
      | [] \<Rightarrow> None)"
| "search_at ic r pre (x # xs) =
     (case rmatch ic r (after None pre) (x # xs) of
        (c, g) # _ \<Rightarrow> Some (pre, c, g, drop (length c) (x # xs))
      | [] \<Rightarrow> search_at ic r (pre @ [x]) xs)"

definition re_search :: "bool \<Rightarrow> re \<Rightarrow> string \<Rightarrow> rmatch option" where
  "re_search ic r s = search_at ic r [] s"

definition group :: "caps \<Rightarrow> nat \<Rightarrow> string" where
  "group g k = (case map_of g k of Some t \<Rightarrow> t | None \<Rightarrow> [])"

text \<open>
  The successive non-overlapping matches that \<open>re.findall\<close>, \<open>re.sub\<close> and \<open>re.split\<close>
  iterate over, with the characters between them. No pattern of this program matches the
  empty string; after an empty match the scan moves on by one character.
\<close>

datatype token = Chr char | Hit string caps

function scan :: "bool \<Rightarrow> re \<Rightarrow> char option \<Rightarrow> string \<Rightarrow> token list" where
  "scan ic r prev [] =
     (case rmatch ic r prev [] of (c, g) # _ \<Rightarrow> [Hit c g] | [] \<Rightarrow> [])"
| "scan ic r prev (x # xs) =
     (case rmatch ic r prev (x # xs) of
        (c, g) # _ \<Rightarrow>
          if c = [] then Hit c g # Chr x # scan ic r (Some x) xs
          else Hit c g # scan ic r (Some (last c)) (drop (length c) (x # xs))
      | [] \<Rightarrow> Chr x # scan ic r (Some x) xs)"
  by pat_completeness auto
termination
  by (relation "measure (\<lambda>(ic, r, prev, s). length s)") auto

definition re_findall :: "bool \<Rightarrow> re \<Rightarrow> string \<Rightarrow> string list" where
  "re_findall ic r s = concat (map (\<lambda>t. case t of Chr x \<Rightarrow> [] | Hit c g \<Rightarrow> [c]) (scan ic r None s))"

definition re_sub :: "bool \<Rightarrow> re \<Rightarrow> string \<Rightarrow> string \<Rightarrow> string" where
  "re_sub ic r repl s = concat (map (\<lambda>t. case t of Chr x \<Rightarrow> [x] | Hit c g \<Rightarrow> repl) (scan ic r None s))"

fun split_tokens :: "token list \<Rightarrow> string \<Rightarrow> string list" where
  "split_tokens [] acc = [acc]"
| "split_tokens (Chr x # ts) acc = split_tokens ts (acc @ [x])"
| "split_tokens (Hit c g # ts) acc = acc # split_tokens ts []"

definition re_split :: "bool \<Rightarrow> re \<Rightarrow> string \<Rightarrow> string list" where
  "re_split ic r s = split_tokens (scan ic r None s) []"


section \<open>The prerequisite parser (parse\_all\_courses.py)\<close>

subsection \<open>The expression tree\<close>

datatype category = Standing | Approval | Exemption | Preparation | Other

text \<open>
  A node is a Python dict with a \<open>type\<close> key. A course node holds \<open>course_code\<close>,
  \<open>is_concurrent\<close> and \<open>is_optional\<close>, in this order; the two flags are keys of the dict
  that one construction site writes and another does not: \<open>None\<close> is a key that is absent.
  The expression of a group is the result of a parse, which may be Python's \<open>None\<close>.
\<close>

datatype node =
    Course string "bool option" "bool option"
  | And "node list"
  | Or "node list"
  | Group "node option"
  | Concurrent node string
  | TextCondition string category

datatype error = RecursionError | AttributeError | UnboundLocalError

record prerequisite_ast =
  prerequisites :: "node option"
  corequisites :: "node option"
  raw_text :: string
  parse_error :: "error option"

subsection \<open>Patterns\<close>

definition COURSE_PATTERN :: re where
  "COURSE_PATTERN = seqs [WordB, times4 Upper, Star Space, times4 Digit, WordB]"

definition concurrent_split_re :: re where
  "concurrent_split_re = Grp 1
     (Alt (seqs [Opt (Atom (Lit CHR '','')), Star Space, lit ''and'', Plus Space,
                 lit ''concurrent'', Plus Space, lit ''with''])
     (Alt (seqs [Opt (Atom (Lit CHR '','')), Star Space, lit ''and'', Plus Space,
                 lit ''Concurrent'', Plus Space, lit ''with''])
          (lit ''Must be taken concurrently with'')))"

definition note_re :: re where
  "note_re = seqs [lit ''for'', Plus Space, Grp 1 (PlusLazy AnyChar),
                   Alt (Atom (Lit CHR ''.'')) Eol]"

definition label1_re :: re where
  "label1_re = seqs [Bol, lit ''Pre-requisites'', Plus Space, lit ''or'', Plus Space,
                     lit ''concurrent:'', Star Space]"

definition label2_re :: re where
  "label2_re = seqs [Bol, lit ''Prerequisite:'', Star Space]"

definition and_concurrent_re :: re where
  "and_concurrent_re = seqs [WordB, lit ''and'', Plus Space, lit ''concurrent'', WordB]"

definition and_re :: re where
  "and_re = seqs [Plus Space, lit ''and'', Plus Space]"

definition or_re :: re where
  "or_re = seqs [Plus Space, lit ''or'', Plus Space]"

definition or_concurrent_re :: re where
  "or_concurrent_re = seqs [Atom (Lit CHR ''(''), Star Space, lit ''or'', Plus Space,
                            lit ''concurrent'', Star Space, Atom (Lit CHR '')'')]"

definition group_pattern :: re where
  "group_pattern = seqs [Atom (Lit CHR ''(''), Plus NotParen, Atom (Lit CHR '')'')]"

subsection \<open>Concurrent text\<close>

definition course_leaf :: "string \<Rightarrow> node" where
  "course_leaf c = Course (replace '' '' [] c) None None"

text \<open>The note of a concurrent requirement: the lines between the scan for course codes
  and the construction of the node.\<close>

definition concurrent_note :: "string \<Rightarrow> string" where
  "concurrent_note text =
     (if contains (lower text) ''for''
      then (case re_search True note_re text of
              Some (b, c, g, a) \<Rightarrow> strip (group g 1)
            | None \<Rightarrow> [])
      else [])"

definition parse_concurrent :: "string \<Rightarrow> node option" where
  "parse_concurrent text =
     (if text = [] then None
      else
        let courses = re_findall False COURSE_PATTERN text;
            note = concurrent_note text
        in if courses \<noteq> []
           then
             let course_node = (if length courses > 1 then Or (map course_leaf courses)
                                else course_leaf (hd courses))
             in Some (Concurrent course_node note)
           else None)"

subsection \<open>Atomic fragments\<close>

definition text_conditions :: "(category \<times> string list) list" where
  "text_conditions =
     [(Standing, [''senior standing'', ''junior standing'', ''sophomore standing'',
                  ''freshman standing'', ''standing'']),
      (Approval, [''instructor approval'', ''consent of instructor'', ''approval'',
                  ''permission'', ''instructor consent'']),
      (Exemption, [''exemption'']),
      (Preparation, [''preparation course'', ''college level''])]"

text \<open>The inner loop over the keywords of one category, left by \<open>break\<close> at the first hit.\<close>

fun keyword_loop :: "string \<Rightarrow> category \<Rightarrow> string list \<Rightarrow> category \<Rightarrow> category" where
  "keyword_loop text_lower cat [] category = category"
| "keyword_loop text_lower cat (keyword # keywords) category =
     (if contains text_lower keyword then cat
      else keyword_loop text_lower cat keywords category)"

text \<open>The outer loop over the categories, in the order of the table; it runs to the end.\<close>

fun category_loop :: "string \<Rightarrow> (category \<times> string list) list \<Rightarrow> category \<Rightarrow> category" where
  "category_loop text_lower [] category = category"
| "category_loop text_lower ((cat, keywords) # rest) category =
     category_loop text_lower rest (keyword_loop text_lower cat keywords category)"

definition parse_atomic :: "string \<Rightarrow> node option" where
  "parse_atomic text0 =
     (if text0 = [] then None
      else
        let text1 = strip_chars '' ,.'' text0;
            concurrent_match = re_search True or_concurrent_re text1;
            is_conc = (concurrent_match \<noteq> None);
            text = (case concurrent_match of
                      Some (b, c, g, a) \<Rightarrow> strip b @ strip a
                    | None \<Rightarrow> text1)
        in case re_search False COURSE_PATTERN text of
             Some (b, c, g, a) \<Rightarrow> Some (Course (replace '' '' [] c) (Some is_conc) (Some False))
           | None \<Rightarrow>
               let category = category_loop (lower text) text_conditions Other
               in if category \<noteq> Other \<or> length text > 5
                  then Some (TextCondition text category)
                  else None)"

subsection \<open>Disjunction and conjunction\<close>

definition or_parts :: "string \<Rightarrow> string list" where
  "or_parts text = re_split True or_re text"

definition or_children :: "string \<Rightarrow> node list" where
  "or_children text = List.map_filter (\<lambda>part. parse_atomic (strip part)) (or_parts text)"

definition parse_or_expression :: "string \<Rightarrow> node option" where
  "parse_or_expression text =
     (if text = [] then None
      else if length (or_parts text) > 1
      then (case or_children text of
              [child] \<Rightarrow> Some child
            | [] \<Rightarrow> parse_atomic text
            | children \<Rightarrow> Some (Or children))
      else parse_atomic text)"

definition split_on_and :: "string \<Rightarrow> string list" where
  "split_on_and text =
     map (replace ''~~~CONCURRENT~~~'' ''and concurrent'')
       (re_split True and_re (re_sub True and_concurrent_re ''~~~CONCURRENT~~~'' text))"

definition and_children :: "string \<Rightarrow> node list" where
  "and_children text =
     List.map_filter (\<lambda>part. parse_or_expression (strip part)) (split_on_and text)"

text \<open>The part of \<open>_parse_expression\<close> after the test for parentheses.\<close>

definition parse_conjunction :: "string \<Rightarrow> node option" where
  "parse_conjunction text =
     (if length (split_on_and text) > 1
      then (case and_children text of
              [child] \<Rightarrow> Some child
            | [] \<Rightarrow> parse_or_expression text
            | children \<Rightarrow> Some (And children))
      else parse_or_expression text)"

text \<open>The first part of \<open>_parse_expression\<close>: trimming and the two leading labels.\<close>

definition normalise :: "string \<Rightarrow> string" where
  "normalise text = re_sub True label2_re [] (re_sub True label1_re [] (strip text))"


subsection \<open>Parenthesised groups\<close>

fun str_nat :: "nat \<Rightarrow> string" where
  "str_nat n = (if n < 10 then [char_of (48 + n)]
                else str_nat (n div 10) @ [char_of (48 + n mod 10)])"

definition placeholder_of :: "nat \<Rightarrow> string" where
  "placeholder_of counter = ''~~~GROUP'' @ str_nat counter @ ''~~~''"

text \<open>
  \<open>re.sub\<close> with the callback \<open>replace_group\<close>: every match is replaced by a numbered
  placeholder, and the dict \<open>placeholder_map\<close> receives the match without its parentheses.
  The newest binding of the dict is at the front of the list.
\<close>

fun replace_groups :: "token list \<Rightarrow> nat \<Rightarrow> (string \<times> string) list \<Rightarrow> string \<times> (string \<times> string) list" where
  "replace_groups [] counter pm = ([], pm)"
| "replace_groups (Chr x # ts) counter pm =
     (let (t, pm') = replace_groups ts counter pm in (x # t, pm'))"
| "replace_groups (Hit c g # ts) counter pm =
     (let group_text = butlast (tl c);
          placeholder = placeholder_of counter;
          (t, pm') = replace_groups ts (Suc counter) ((placeholder, group_text) # pm)
      in (placeholder @ t, pm'))"

definition sub_groups :: "string \<Rightarrow> string \<times> (string \<times> string) list" where
  "sub_groups text = replace_groups (scan False group_pattern None text) 0 []"

text \<open>The list comprehension over the children: the first exception ends it, a falsy
  result is left out.\<close>

fun collect :: "(error + node option) list \<Rightarrow> error + node list" where
  "collect [] = Inr []"
| "collect (Inl e # rs) = Inl e"
| "collect (Inr x # rs) =
     (case collect rs of
        Inl e \<Rightarrow> Inl e
      | Inr ys \<Rightarrow> Inr (case x of None \<Rightarrow> ys | Some y \<Rightarrow> y # ys))"

text \<open>
  \<open>_replace_placeholders\<close> on a node that is not \<open>None\<close>. Its first argument is
  \<open>self._parse_expression\<close> as it runs one activation deeper.
\<close>

fun replace_node :: "(string \<Rightarrow> error + node option) \<Rightarrow> (string \<times> string) list \<Rightarrow> node \<Rightarrow> error + node option" where
  "replace_node pe pm (Course cc ic io) =
     (if startswith cc ''~~~GROUP''
      then (case map_of pm cc of
              Some group_text \<Rightarrow>
                (case pe group_text of
                   Inl e \<Rightarrow> Inl e
                 | Inr group_node \<Rightarrow> Inr (Some (Group group_node)))
            | None \<Rightarrow> Inr (Some (Course cc ic io)))
      else Inr (Some (Course cc ic io)))"
| "replace_node pe pm (And children) =
     (case collect (map (replace_node pe pm) children) of
        Inl e \<Rightarrow> Inl e
      | Inr new_children \<Rightarrow> Inr (Some (And new_children)))"
| "replace_node pe pm (Or children) =
     (case collect (map (replace_node pe pm) children) of
        Inl e \<Rightarrow> Inl e
      | Inr new_children \<Rightarrow> Inr (Some (Or new_children)))"
| "replace_node pe pm (Group expression) =
     (case expression of
        None \<Rightarrow> Inr (Some (Group None))
      | Some n \<Rightarrow>
          (case replace_node pe pm n of
             Inl e \<Rightarrow> Inl e
           | Inr n' \<Rightarrow> Inr (Some (Group n'))))"
| "replace_node pe pm (Concurrent c note) = Inr (Some (Concurrent c note))"
| "replace_node pe pm (TextCondition t cat) = Inr (Some (TextCondition t cat))"

definition replace_placeholders :: "(string \<Rightarrow> error + node option) \<Rightarrow> node option \<Rightarrow> (string \<times> string) list \<Rightarrow> error + node option" where
  "replace_placeholders pe node pm =
     (case node of None \<Rightarrow> Inr None | Some n \<Rightarrow> replace_node pe pm n)"

definition parse_with_groups :: "(string \<Rightarrow> error + node option) \<Rightarrow> string \<Rightarrow> error + node option" where
  "parse_with_groups pe text =
     (let (modified_text, placeholder_map) = sub_groups text
      in case pe modified_text of
           Inl e \<Rightarrow> Inl e
         | Inr result \<Rightarrow> replace_placeholders pe result placeholder_map)"

subsection \<open>Expressions\<close>

text \<open>
  \<open>_parse_expression\<close> calls itself through \<open>_parse_with_groups\<close> and
  \<open>_replace_placeholders\<close>, on a text that still has both kinds of parentheses whenever no
  group was found in it. Python ends such a chain of calls with \<open>RecursionError\<close> when the
  interpreter's recursion limit is reached. The first argument is the number of nested
  activations of \<open>_parse_expression\<close> that the limit still allows.
\<close>

fun parse_expression :: "nat \<Rightarrow> string \<Rightarrow> error + node option" where
  "parse_expression 0 text = Inl RecursionError"
| "parse_expression (Suc depth) text =
     (if text = [] then Inr None
      else
        let text' = normalise text
        in if CHR ''('' \<in> set text' \<and> CHR '')'' \<in> set text'
           then parse_with_groups (parse_expression depth) text'
           else Inr (parse_conjunction text'))"

subsection \<open>Splitting off the concurrent part, and the assembled result\<close>

definition split_prereq_and_concurrent :: "nat \<Rightarrow> string \<Rightarrow> error + (node option \<times> node option)" where
  "split_prereq_and_concurrent depth text =
     (if text = [] then Inr (None, None)
      else
        let text_lower = lower text
        in if startswith text_lower ''concurrent'' \<or> startswith text_lower ''prerequisite: concurrent''
           then Inr (None, parse_concurrent text)
           else
             (case re_search True concurrent_split_re text of
                Some (b, c, g, a) \<Rightarrow>
                  let prereq_part = strip b;
                      concurrent_part = strip a
                  in (case (if prereq_part \<noteq> [] then parse_expression depth prereq_part else Inr None) of
                        Inl e \<Rightarrow> Inl e
                      | Inr prereq_node \<Rightarrow>
                          Inr (prereq_node,
                               if concurrent_part \<noteq> [] then parse_concurrent concurrent_part else None))
              | None \<Rightarrow>
                  (case parse_expression depth text of
                     Inl e \<Rightarrow> Inl e
                   | Inr prereq_node \<Rightarrow> Inr (prereq_node, None))))"

definition parse :: "nat \<Rightarrow> string \<Rightarrow> string \<Rightarrow> error + prerequisite_ast" where
  "parse depth prerequisites_text concurrent_text =
     (if prerequisites_text = [] \<and> concurrent_text = []
      then Inr \<lparr>prerequisites = None, corequisites = None, raw_text = [], parse_error = None\<rparr>
      else
        let full_text = strip prerequisites_text
        in case split_prereq_and_concurrent depth full_text of
             Inl e \<Rightarrow> Inl e
           | Inr (prereq_node, concurrent_node) \<Rightarrow>
               if concurrent_text \<noteq> []
               then
                 let raw = full_text @ '' | Concurrent: '' @ concurrent_text;
                     concurrent_from_field = parse_concurrent concurrent_text;
                     merged = (case concurrent_from_field of
                                 Some cf \<Rightarrow>
                                   (case concurrent_node of
                                      Some cn \<Rightarrow> Some (And [cn, cf])
                                    | None \<Rightarrow> Some cf)
                               | None \<Rightarrow> concurrent_node)
                 in Inr \<lparr>prerequisites = prereq_node, corequisites = merged,
                         raw_text = raw, parse_error = None\<rparr>
               else Inr \<lparr>prerequisites = prereq_node, corequisites = concurrent_node,
                         raw_text = full_text, parse_error = None\<rparr>)"


subsection \<open>The batch loop of main\<close>

text \<open>
  A course record is a JSON object. The values under the keys \<open>prerequisites\<close> and
  \<open>concurrent\<close> (the fields \<open>prerequisites_text\<close> and \<open>concurrent_text\<close>) are JSON values: a
  string, or a value of another kind (null, a number, a boolean, an array, an object). The
  title is a string when present; the three other fields are the keys that the two scripts
  add. \<open>None\<close> is an absent key. An element of the array that main loads is a course
  record or, again, a value of another kind.
\<close>

datatype json_value = JString string | JOther

record course =
  title :: "string option"
  prerequisites_text :: "json_value option"
  concurrent_text :: "json_value option"
  prerequisite_ast :: "prerequisite_ast option"
  is_prerequisite_for :: "string list option"
  is_corequisite_for :: "string list option"

definition get_str :: "string option \<Rightarrow> string" where
  "get_str v = (case v of None \<Rightarrow> [] | Some t \<Rightarrow> t)"











section \<open>The reverse-dependency graph (add\_reverse\_prerequisites.py)\<close>

definition title_re :: re where
  "title_re = seqs [Grp 1 (times4 Upper), Star Space, Grp 2 (times4 Digit)]"

definition extract_course_code_from_title :: "string \<Rightarrow> string" where
  "extract_course_code_from_title t =
     (case re_search False title_re t of
        Some (b, c, g, a) \<Rightarrow> group g 1 @ group g 2
      | None \<Rightarrow> [])"

fun get_all_prerequisite_courses :: "node option \<Rightarrow> bool \<Rightarrow> string set" where
  "get_all_prerequisite_courses None include_corequisites = {}"
| "get_all_prerequisite_courses (Some (Course cc ic io)) include_corequisites = {cc}"
| "get_all_prerequisite_courses (Some (And children)) include_corequisites =
     (\<Union>child \<in> set children. get_all_prerequisite_courses (Some child) include_corequisites)"
| "get_all_prerequisite_courses (Some (Or children)) include_corequisites =
     (\<Union>child \<in> set children. get_all_prerequisite_courses (Some child) include_corequisites)"
| "get_all_prerequisite_courses (Some (Group expression)) include_corequisites =
     get_all_prerequisite_courses expression include_corequisites"
| "get_all_prerequisite_courses (Some (Concurrent course_node note)) include_corequisites =
     (if include_corequisites
      then get_all_prerequisite_courses (Some course_node) include_corequisites
      else {})"
| "get_all_prerequisite_courses (Some (TextCondition t cat)) include_corequisites = {}"

definition join_key :: "course \<Rightarrow> string" where
  "join_key c = extract_course_code_from_title (get_str (title c))"

definition ast_prerequisites :: "course \<Rightarrow> node option" where
  "ast_prerequisites c = (case prerequisite_ast c of None \<Rightarrow> None | Some a \<Rightarrow> prerequisites a)"

definition ast_corequisites :: "course \<Rightarrow> node option" where
  "ast_corequisites c = (case prerequisite_ast c of None \<Rightarrow> None | Some a \<Rightarrow> corequisites a)"

definition lookup :: "(string \<rightharpoonup> string set) \<Rightarrow> string \<Rightarrow> string set" where
  "lookup reverse_map k = (case reverse_map k of None \<Rightarrow> {} | Some s \<Rightarrow> s)"

text \<open>
  The loop over the collected set: every code of the set that is not the empty string
  receives \<open>course_code\<close> in its entry. The updates are on distinct keys, so the order in
  which the set is iterated does not matter.
\<close>

definition add_edges :: "(string \<rightharpoonup> string set) \<Rightarrow> string set \<Rightarrow> string \<Rightarrow> (string \<rightharpoonup> string set)" where
  "add_edges reverse_map codes course_code =
     (\<lambda>k. if k \<in> codes \<and> k \<noteq> [] then Some (insert course_code (lookup reverse_map k))
          else reverse_map k)"

definition prerequisite_step :: "(string \<rightharpoonup> string set) \<Rightarrow> course \<Rightarrow> (string \<rightharpoonup> string set)" where
  "prerequisite_step reverse_map c =
     (let course_code = join_key c
      in if course_code = [] then reverse_map
         else add_edges reverse_map (get_all_prerequisite_courses (ast_prerequisites c) False) course_code)"

definition build_reverse_prerequisite_map :: "course list \<Rightarrow> (string \<rightharpoonup> string set)" where
  "build_reverse_prerequisite_map courses = foldl prerequisite_step Map.empty courses"

definition corequisite_step :: "(string \<rightharpoonup> string set) \<Rightarrow> course \<Rightarrow> (string \<rightharpoonup> string set)" where
  "corequisite_step reverse_map c =
     (let course_code = join_key c
      in if course_code = [] then reverse_map
         else add_edges reverse_map (get_all_prerequisite_courses (ast_corequisites c) True) course_code)"

definition build_reverse_corequisite_map :: "course list \<Rightarrow> (string \<rightharpoonup> string set)" where
  "build_reverse_corequisite_map courses = foldl corequisite_step Map.empty courses"

text \<open>The second loop of main: both sorted lists are written onto every record.\<close>

definition enhance :: "course list \<Rightarrow> course \<Rightarrow> course" where
  "enhance courses c =
     (let course_code = join_key c
      in c\<lparr>is_prerequisite_for :=
             Some (sorted_list_of_set (lookup (build_reverse_prerequisite_map courses) course_code)),
           is_corequisite_for :=
             Some (sorted_list_of_set (lookup (build_reverse_corequisite_map courses) course_code))\<rparr>)"

definition enhanced_courses :: "course list \<Rightarrow> course list" where
  "enhanced_courses courses = map (enhance courses) courses"


section \<open>Course leaves of a tree, as the design describes them\<close>

text \<open>
  The codes of the course leaves that are reached without entering a concurrent wrapper,
  and the codes of all course leaves.
\<close>


fun leaves_outside_concurrent :: "node \<Rightarrow> string set" where
  "leaves_outside_concurrent (Course cc ic io) = {cc}"
| "leaves_outside_concurrent (And children) = \<Union> (set (map leaves_outside_concurrent children))"
| "leaves_outside_concurrent (Or children) = \<Union> (set (map leaves_outside_concurrent children))"
| "leaves_outside_concurrent (Group expression) =
     (case expression of None \<Rightarrow> {} | Some n \<Rightarrow> leaves_outside_concurrent n)"
| "leaves_outside_concurrent (Concurrent n note) = {}"
| "leaves_outside_concurrent (TextCondition t cat) = {}"

fun leaves_anywhere :: "node \<Rightarrow> string set" where
  "leaves_anywhere (Course cc ic io) = {cc}"
| "leaves_anywhere (And children) = \<Union> (set (map leaves_anywhere children))"
| "leaves_anywhere (Or children) = \<Union> (set (map leaves_anywhere children))"
| "leaves_anywhere (Group expression) =
     (case expression of None \<Rightarrow> {} | Some n \<Rightarrow> leaves_anywhere n)"
| "leaves_anywhere (Concurrent n note) = leaves_anywhere n"
| "leaves_anywhere (TextCondition t cat) = {}"

definition prerequisite_leaves :: "course \<Rightarrow> string set" where
  "prerequisite_leaves c =
     (case ast_prerequisites c of None \<Rightarrow> {} | Some n \<Rightarrow> leaves_outside_concurrent n)"

definition corequisite_leaves :: "course \<Rightarrow> string set" where
  "corequisite_leaves c =
     (case ast_corequisites c of None \<Rightarrow> {} | Some n \<Rightarrow> leaves_anywhere n)"

definition record_of :: "string \<Rightarrow> node option \<Rightarrow> node option \<Rightarrow> course" where
  "record_of t pre co =
     \<lparr>title = Some t, prerequisites_text = None, concurrent_text = None,
      prerequisite_ast = Some \<lparr>prerequisites = pre, corequisites = co, raw_text = [], parse_error = None\<rparr>,
      is_prerequisite_for = None, is_corequisite_for = None\<rparr>"

definition lab_tree :: node where
  "lab_tree =
     And [Course ''CCCC3000'' (Some False) (Some False),
          Group (Some (Or [Course ''DDDD4000'' (Some False) (Some False),
                           Course ''EEEE5000'' (Some False) (Some False)])),
          Concurrent (Course ''BBBB2000'' None None) []]"

definition lab_course :: course where
  "lab_course = record_of ''AAAA 1000 - Lab'' (Some lab_tree)
     (Some (Concurrent (Course ''BBBB2000'' None None) []))"

text \<open>A catalog in which two records have the title code \<open>AAAA 1000\<close>.\<close>

definition duplicate_catalog :: "course list" where
  "duplicate_catalog =
     [record_of ''AAAA 1000 - Section one'' (Some (Course ''BBBB2000'' (Some False) (Some False))) None,
      record_of ''AAAA 1000 - Section two'' None None,
      record_of ''BBBB 2000 - Basics'' None None]"

section \<open>Shapes of trees\<close>

text \<open>Every conjunction and disjunction of the tree has at least two children.\<close>

fun well_formed :: "node \<Rightarrow> bool" where
  "well_formed (Course cc ic io) = True"
| "well_formed (And children) = (2 \<le> length children \<and> list_all well_formed children)"
| "well_formed (Or children) = (2 \<le> length children \<and> list_all well_formed children)"
| "well_formed (Group expression) = (case expression of None \<Rightarrow> True | Some n \<Rightarrow> well_formed n)"
| "well_formed (Concurrent n note) = well_formed n"
| "well_formed (TextCondition t cat) = True"

definition well_formed_opt :: "node option \<Rightarrow> bool" where
  "well_formed_opt t = (case t of None \<Rightarrow> True | Some n \<Rightarrow> well_formed n)"

fun is_leaf :: "node \<Rightarrow> bool" where
  "is_leaf (Course cc ic io) = True"
| "is_leaf (TextCondition t cat) = True"
| "is_leaf n = False"

section \<open>Sample records of the batch\<close>












section \<open>The normalisation, as the design describes it\<close>

text \<open>A case-insensitive prefix, and the removal of the two labels without patterns.\<close>

definition ci_prefix :: "string \<Rightarrow> string \<Rightarrow> bool" where
  "ci_prefix p s = (lower (take (length p) s) = lower p)"

definition drop_label1 :: "string \<Rightarrow> string" where
  "drop_label1 s =
     (let s1 = drop 14 s; s2 = dropWhile is_space s1;
          s3 = drop 2 s2; s4 = dropWhile is_space s3
      in if ci_prefix ''pre-requisites'' s \<and> s2 \<noteq> s1 \<and> ci_prefix ''or'' s2 \<and>
            s4 \<noteq> s3 \<and> ci_prefix ''concurrent:'' s4
         then dropWhile is_space (drop 11 s4)
         else s)"

definition drop_label2 :: "string \<Rightarrow> string" where
  "drop_label2 s =
     (if ci_prefix ''prerequisite:'' s then dropWhile is_space (drop 13 s) else s)"

definition normalise_described :: "string \<Rightarrow> string" where
  "normalise_described text = drop_label2 (drop_label1 (strip text))"

text \<open>What is left of the text after the match that the backtracking order prefers.\<close>

definition first_rest :: "re \<Rightarrow> char option \<Rightarrow> string \<Rightarrow> string option" where
  "first_rest r prev s =
     (case rmatch True r prev s of [] \<Rightarrow> None | (c, g) # _ \<Rightarrow> Some (drop (length c) s))"

text \<open>The results of a greedy repetition followed by \<open>r\<close> that come after those of the
  longest repetition.\<close>

definition lower_priority :: "bool \<Rightarrow> atom \<Rightarrow> re \<Rightarrow> char option \<Rightarrow> string \<Rightarrow> (string \<times> caps) list" where
  "lower_priority ic a r prev s =
     (let run = takeWhile (atom_ok ic a) s
      in concat (map (\<lambda>(c1, g1).
            map (\<lambda>(c2, g2). (c1 @ c2, g1 @ g2)) (rmatch ic r (after prev c1) (drop (length c1) s)))
           (map (\<lambda>n. (take n run, [])) (rev [1..<length run]))))"

section \<open>The note of a concurrent requirement, as the design describes it\<close>

text \<open>
  A \<open>for\<close> clause starts where the text reads \<open>for\<close>, in any case, followed by
  whitespace. The described note is taken at the first such place.
\<close>

definition for_clause_at :: "string \<Rightarrow> bool" where
  "for_clause_at s = (ci_prefix ''for'' s \<and> takeWhile is_space (drop 3 s) \<noteq> [])"

fun note_described :: "string \<Rightarrow> string" where
  "note_described [] = []"
| "note_described (c # cs) =
     (if for_clause_at (c # cs)
      then (case dropWhile is_space (drop 3 (c # cs)) of
              [] \<Rightarrow> []
            | c0 # rest \<Rightarrow> strip (c0 # takeWhile (\<lambda>x. x \<noteq> CHR ''.'') rest))
      else note_described cs)"

text \<open>The end of the note pattern, and the results of a lazy repetition of a given
  length followed by \<open>r\<close>.\<close>

definition stop_re :: re where
  "stop_re = Alt (Atom (Lit CHR ''.'')) Eol"

definition lazy_step :: "bool \<Rightarrow> atom \<Rightarrow> re \<Rightarrow> nat \<Rightarrow> char option \<Rightarrow> string \<Rightarrow> nat \<Rightarrow> (string \<times> caps) list" where
  "lazy_step ic a r k prev s n =
     (let c1 = take n (takeWhile (atom_ok ic a) s)
      in map (\<lambda>(c2, g2). (c1 @ c2, (k, c1) # g2)) (rmatch ic r (after prev c1) (drop (length c1) s)))"

section \<open>Evaluation lemmas\<close>

lemma normalise_scenario:
  "normalise ''CSCE 1001 and (CSCE 1101 or CSCE 2303)'' = ''CSCE 1001 and (CSCE 1101 or CSCE 2303)''"
  by code_simp

lemma sub_groups_scenario:
  "sub_groups ''CSCE 1001 and (CSCE 1101 or CSCE 2303)'' =
     (''CSCE 1001 and ~~~GROUP0~~~'', [(''~~~GROUP0~~~'', ''CSCE 1101 or CSCE 2303'')])"
  by code_simp

lemma normalise_modified:
  "normalise ''CSCE 1001 and ~~~GROUP0~~~'' = ''CSCE 1001 and ~~~GROUP0~~~''"
  by code_simp

lemma parse_conjunction_modified:
  "parse_conjunction ''CSCE 1001 and ~~~GROUP0~~~'' =
     Some (And [Course ''CSCE1001'' (Some False) (Some False),
                TextCondition ''~~~GROUP0~~~'' Other])"
  by code_simp

lemma startswith_CSCE1001: "\<not> startswith ''CSCE1001'' ''~~~GROUP''"
  by code_simp

section \<open>The group scenario\<close>

text \<open>
  C1. The scenario text \<open>CSCE 1001 and (CSCE 1101 or CSCE 2303)\<close>, whatever recursion depth
  is left beyond two activations: the parenthesised span is replaced by the placeholder
  \<open>~~~GROUP0~~~\<close> and the outer text is parsed, but the placeholder is classified as a text
  condition of category other, and \<open>_replace_placeholders\<close> looks for placeholders in
  course nodes only. The result is the conjunction of the course and that text condition:
  no group node is built and the content of the parentheses is not parsed.
\<close>

theorem group_scenario_keeps_placeholder:
  "parse_expression (Suc (Suc depth)) ''CSCE 1001 and (CSCE 1101 or CSCE 2303)'' =
     Inr (Some (And [Course ''CSCE1001'' (Some False) (Some False),
                     TextCondition ''~~~GROUP0~~~'' Other]))"
  by (simp add: normalise_scenario sub_groups_scenario normalise_modified
      parse_conjunction_modified parse_with_groups_def replace_placeholders_def
      startswith_CSCE1001)

section \<open>The category of a text condition\<close>

text \<open>
  C4. The fragment \<open>standing with permission\<close> has no course code and holds a keyword of
  the category standing and a keyword of the category approval. The loop over the
  categories is not left at the first hit, and the fragment is given the later category,
  approval.
\<close>

theorem later_category_wins:
  "re_search False COURSE_PATTERN ''standing with permission'' = None \<and>
   contains (lower ''standing with permission'') ''standing'' \<and>
   contains (lower ''standing with permission'') ''permission'' \<and>
   parse_atomic ''standing with permission'' =
     Some (TextCondition ''standing with permission'' Approval)"
  by code_simp

theorem later_category_wins_witness:
  "parse_atomic ''standing with permission'' =
     Some (TextCondition ''standing with permission'' Approval)"
  using later_category_wins by simp

section \<open>The reverse maps\<close>

lemma get_all_False: "get_all_prerequisite_courses (Some n) False = leaves_outside_concurrent n"
  by (induction n) (auto split: option.splits)

lemma get_all_True: "get_all_prerequisite_courses (Some n) True = leaves_anywhere n"
  by (induction n) (auto split: option.splits)

lemma lookup_add_edges:
  "lookup (add_edges m S cc) k = (if k \<in> S \<and> k \<noteq> [] then insert cc (lookup m k) else lookup m k)"
  by (simp add: add_edges_def lookup_def)

lemma lookup_prerequisite_foldl:
  "lookup (foldl prerequisite_step m cs) k =
     lookup m k \<union> {join_key c |c. c \<in> set cs \<and> join_key c \<noteq> [] \<and> k \<noteq> [] \<and>
                       k \<in> get_all_prerequisite_courses (ast_prerequisites c) False}"
  by (induction cs arbitrary: m) (auto simp: prerequisite_step_def Let_def lookup_add_edges)

lemma lookup_corequisite_foldl:
  "lookup (foldl corequisite_step m cs) k =
     lookup m k \<union> {join_key c |c. c \<in> set cs \<and> join_key c \<noteq> [] \<and> k \<noteq> [] \<and>
                       k \<in> get_all_prerequisite_courses (ast_corequisites c) True}"
  by (induction cs arbitrary: m) (auto simp: corequisite_step_def Let_def lookup_add_edges)

lemma none_prerequisite_foldl:
  "foldl prerequisite_step m cs k = None \<longleftrightarrow>
     m k = None \<and> (\<forall>c \<in> set cs. join_key c = [] \<or> k = [] \<or>
                       k \<notin> get_all_prerequisite_courses (ast_prerequisites c) False)"
  by (induction cs arbitrary: m) (auto simp: prerequisite_step_def Let_def add_edges_def)

lemma finite_edges: "finite {join_key c |c. c \<in> set cs \<and> P c}"
  by simp

lemma lookup_empty: "lookup Map.empty k = {}"
  by (simp add: lookup_def)

lemma join_key_lab_course: "join_key lab_course = ''AAAA1000''"
  by code_simp

lemma get_all_opt_False:
  "get_all_prerequisite_courses t False = (case t of None \<Rightarrow> {} | Some n \<Rightarrow> leaves_outside_concurrent n)"
  by (cases t) (simp_all add: get_all_False)

lemma get_all_opt_True:
  "get_all_prerequisite_courses t True = (case t of None \<Rightarrow> {} | Some n \<Rightarrow> leaves_anywhere n)"
  by (cases t) (simp_all add: get_all_True)

lemma member_prerequisite_map:
  "x \<in> lookup (build_reverse_prerequisite_map courses) k \<longleftrightarrow>
     (\<exists>c \<in> set courses. join_key c = x \<and> x \<noteq> [] \<and> k \<noteq> [] \<and>
        k \<in> get_all_prerequisite_courses (ast_prerequisites c) False)"
  by (auto simp: build_reverse_prerequisite_map_def lookup_prerequisite_foldl lookup_empty)

lemma member_corequisite_map:
  "x \<in> lookup (build_reverse_corequisite_map courses) k \<longleftrightarrow>
     (\<exists>c \<in> set courses. join_key c = x \<and> x \<noteq> [] \<and> k \<noteq> [] \<and>
        k \<in> get_all_prerequisite_courses (ast_corequisites c) True)"
  by (auto simp: build_reverse_corequisite_map_def lookup_corequisite_foldl lookup_empty)

lemma prerequisite_leaves_lab_course:
  "prerequisite_leaves lab_course = {''CCCC3000'', ''DDDD4000'', ''EEEE5000''}"
  by (auto simp: prerequisite_leaves_def ast_prerequisites_def lab_course_def record_of_def
      lab_tree_def)

lemma corequisite_leaves_lab_course: "corequisite_leaves lab_course = {''BBBB2000''}"
  by (simp add: corequisite_leaves_def ast_corequisites_def lab_course_def record_of_def)

text \<open>
  C5. With \<open>include_corequisites\<close> false the collection yields exactly the course leaves
  outside concurrent wrappers: it descends into the children of conjunctions and
  disjunctions and into groups, never into a concurrent wrapper; with
  \<open>include_corequisites\<close> true it yields all course leaves, those inside concurrent
  wrappers too. The edges that one course \<open>c\<close> adds to the prerequisite-direction map are
  exactly those from the codes, other than the empty string, that its prerequisites tree
  holds outside concurrent wrappers, provided the course has a join key: the entry of any
  other code, also of one that the tree holds inside a concurrent wrapper only, is left as
  it was. Hence a code has the join key \<open>x\<close> in its entry of the finished map if and only
  if some course with this join key holds the code in its prerequisites tree outside
  concurrent wrappers, and a code that no course holds there has no entry at all. For the
  corequisite-direction map the same holds with all the course leaves of the corequisites
  tree, those inside concurrent wrappers too.
\<close>

theorem concurrent_wrappers_in_the_two_maps:
  "get_all_prerequisite_courses (Some n) False = leaves_outside_concurrent n \<and>
   get_all_prerequisite_courses (Some n) True = leaves_anywhere n \<and>
   lookup (prerequisite_step m c) p =
     (if join_key c \<noteq> [] \<and> p \<noteq> [] \<and> p \<in> prerequisite_leaves c
      then insert (join_key c) (lookup m p) else lookup m p) \<and>
   lookup (corequisite_step m c) q =
     (if join_key c \<noteq> [] \<and> q \<noteq> [] \<and> q \<in> corequisite_leaves c
      then insert (join_key c) (lookup m q) else lookup m q) \<and>
   (x \<in> lookup (build_reverse_prerequisite_map courses) p \<longleftrightarrow>
      (\<exists>d \<in> set courses. join_key d = x \<and> x \<noteq> [] \<and> p \<noteq> [] \<and> p \<in> prerequisite_leaves d)) \<and>
   (x \<in> lookup (build_reverse_corequisite_map courses) q \<longleftrightarrow>
      (\<exists>d \<in> set courses. join_key d = x \<and> x \<noteq> [] \<and> q \<noteq> [] \<and> q \<in> corequisite_leaves d)) \<and>
   ((\<forall>d \<in> set courses. p \<notin> prerequisite_leaves d) \<longrightarrow>
      build_reverse_prerequisite_map courses p = None)"
proof -
  have pre_step: "lookup (prerequisite_step m c) p =
     (if join_key c \<noteq> [] \<and> p \<noteq> [] \<and> p \<in> prerequisite_leaves c
      then insert (join_key c) (lookup m p) else lookup m p)"
    by (simp add: prerequisite_step_def Let_def lookup_add_edges prerequisite_leaves_def
        get_all_opt_False)
  have co_step: "lookup (corequisite_step m c) q =
     (if join_key c \<noteq> [] \<and> q \<noteq> [] \<and> q \<in> corequisite_leaves c
      then insert (join_key c) (lookup m q) else lookup m q)"
    by (simp add: corequisite_step_def Let_def lookup_add_edges corequisite_leaves_def
        get_all_opt_True)
  have pre_map: "x \<in> lookup (build_reverse_prerequisite_map courses) p \<longleftrightarrow>
      (\<exists>d \<in> set courses. join_key d = x \<and> x \<noteq> [] \<and> p \<noteq> [] \<and> p \<in> prerequisite_leaves d)"
    by (simp add: member_prerequisite_map prerequisite_leaves_def get_all_opt_False)
  have co_map: "x \<in> lookup (build_reverse_corequisite_map courses) q \<longleftrightarrow>
      (\<exists>d \<in> set courses. join_key d = x \<and> x \<noteq> [] \<and> q \<noteq> [] \<and> q \<in> corequisite_leaves d)"
    by (simp add: member_corequisite_map corequisite_leaves_def get_all_opt_True)
  have none: "(\<forall>d \<in> set courses. p \<notin> prerequisite_leaves d) \<longrightarrow>
      build_reverse_prerequisite_map courses p = None"
    by (auto simp: build_reverse_prerequisite_map_def none_prerequisite_foldl
        prerequisite_leaves_def get_all_opt_False)
  from pre_step co_step pre_map co_map none show ?thesis
    by (simp only: get_all_False get_all_True simp_thms)
qed

theorem concurrent_wrappers_in_the_two_maps_witness:
  "''AAAA1000'' \<in> lookup (build_reverse_prerequisite_map [lab_course]) ''CCCC3000'' \<and>
   ''AAAA1000'' \<in> lookup (build_reverse_prerequisite_map [lab_course]) ''DDDD4000'' \<and>
   ''AAAA1000'' \<notin> lookup (build_reverse_prerequisite_map [lab_course]) ''BBBB2000'' \<and>
   build_reverse_prerequisite_map [lab_course] ''BBBB2000'' = None \<and>
   ''AAAA1000'' \<in> lookup (build_reverse_corequisite_map [lab_course]) ''BBBB2000''"
proof -
  note fact = concurrent_wrappers_in_the_two_maps
    [where x = "''AAAA1000''" and courses = "[lab_course]" and q = "''BBBB2000''"]
  have a: "''AAAA1000'' \<in> lookup (build_reverse_prerequisite_map [lab_course]) ''CCCC3000''"
    using fact [where p = "''CCCC3000''"]
    by (simp add: prerequisite_leaves_lab_course join_key_lab_course)
  have b: "''AAAA1000'' \<in> lookup (build_reverse_prerequisite_map [lab_course]) ''DDDD4000''"
    using fact [where p = "''DDDD4000''"]
    by (simp add: prerequisite_leaves_lab_course join_key_lab_course)
  have c: "''AAAA1000'' \<notin> lookup (build_reverse_prerequisite_map [lab_course]) ''BBBB2000'' \<and>
      build_reverse_prerequisite_map [lab_course] ''BBBB2000'' = None \<and>
      ''AAAA1000'' \<in> lookup (build_reverse_corequisite_map [lab_course]) ''BBBB2000''"
    using fact [where p = "''BBBB2000''"]
    by (simp add: prerequisite_leaves_lab_course corequisite_leaves_lab_course join_key_lab_course)
  from a b c show ?thesis
    by simp
qed

lemma finite_lookup_prerequisite:
  "finite (lookup (build_reverse_prerequisite_map courses) k)"
  by (simp add: build_reverse_prerequisite_map_def lookup_prerequisite_foldl lookup_empty)

lemma is_prerequisite_for_enhance:
  "is_prerequisite_for (enhance courses c) =
     Some (sorted_list_of_set (lookup (build_reverse_prerequisite_map courses) (join_key c)))"
  by (simp add: enhance_def Let_def)

text \<open>
  C2 (as amended). For all records \<open>C\<close> and \<open>P\<close> of a catalog that have a join key, the
  join key of \<open>C\<close> is in the sorted list \<open>is_prerequisite_for\<close> written onto \<open>P\<close>'s record
  if and only if the join key of \<open>P\<close> is among the codes collected from the prerequisites
  tree of some record of the catalog that has the join key of \<open>C\<close>. When no other record
  has the join key of \<open>C\<close>, that record is \<open>C\<close> itself.
\<close>

theorem graph_inversion:
  assumes "i < length courses" and "j < length courses"
    and "join_key (courses ! i) \<noteq> []" and "join_key (courses ! j) \<noteq> []"
  shows "\<exists>xs. is_prerequisite_for (enhanced_courses courses ! j) = Some xs \<and>
    (join_key (courses ! i) \<in> set xs \<longleftrightarrow>
       (\<exists>k < length courses. join_key (courses ! k) = join_key (courses ! i) \<and>
          join_key (courses ! j) \<in>
            get_all_prerequisite_courses (ast_prerequisites (courses ! k)) False)) \<and>
    ((\<forall>k < length courses. join_key (courses ! k) = join_key (courses ! i) \<longrightarrow> k = i) \<longrightarrow>
       (join_key (courses ! i) \<in> set xs \<longleftrightarrow>
          join_key (courses ! j) \<in>
            get_all_prerequisite_courses (ast_prerequisites (courses ! i)) False))"
proof -
  let ?xs = "sorted_list_of_set (lookup (build_reverse_prerequisite_map courses) (join_key (courses ! j)))"
  have out: "is_prerequisite_for (enhanced_courses courses ! j) = Some ?xs"
    using assms(2) by (simp add: enhanced_courses_def is_prerequisite_for_enhance)
  have set_xs: "set ?xs = lookup (build_reverse_prerequisite_map courses) (join_key (courses ! j))"
    by (simp add: finite_lookup_prerequisite)
  have main: "join_key (courses ! i) \<in> set ?xs \<longleftrightarrow>
       (\<exists>k < length courses. join_key (courses ! k) = join_key (courses ! i) \<and>
          join_key (courses ! j) \<in>
            get_all_prerequisite_courses (ast_prerequisites (courses ! k)) False)"
    unfolding set_xs member_prerequisite_map using assms(3,4)
    by (metis in_set_conv_nth)
  have uniq: "(\<forall>k < length courses. join_key (courses ! k) = join_key (courses ! i) \<longrightarrow> k = i) \<longrightarrow>
       (join_key (courses ! i) \<in> set ?xs \<longleftrightarrow>
          join_key (courses ! j) \<in>
            get_all_prerequisite_courses (ast_prerequisites (courses ! i)) False)"
    unfolding main using assms(1) by auto
  from out main uniq show ?thesis by blast
qed

lemma join_keys_duplicate_catalog:
  "map join_key duplicate_catalog = [''AAAA1000'', ''AAAA1000'', ''BBBB2000'']"
  by code_simp

lemma prerequisite_for_duplicate_catalog:
  "is_prerequisite_for (enhanced_courses duplicate_catalog ! 2) = Some [''AAAA1000'']"
  by code_simp

text \<open>
  C2 as stated fails when two records share a join key: the second record titled
  \<open>AAAA 1000\<close> has no prerequisites, yet its join key is in the list written onto the
  record of \<open>BBBB 2000\<close>, which the first record titled \<open>AAAA 1000\<close> requires.
\<close>

theorem graph_inversion_counterexample:
  "join_key (duplicate_catalog ! 1) = ''AAAA1000'' \<and>
   join_key (duplicate_catalog ! 2) = ''BBBB2000'' \<and>
   get_all_prerequisite_courses (ast_prerequisites (duplicate_catalog ! 1)) False = {} \<and>
   is_prerequisite_for (enhanced_courses duplicate_catalog ! 2) = Some [''AAAA1000'']"
proof -
  have "get_all_prerequisite_courses (ast_prerequisites (duplicate_catalog ! 1)) False = {}"
    by (simp add: duplicate_catalog_def record_of_def ast_prerequisites_def)
  moreover have "join_key (duplicate_catalog ! 1) = ''AAAA1000''"
    and "join_key (duplicate_catalog ! 2) = ''BBBB2000''"
    using join_keys_duplicate_catalog by (simp_all add: duplicate_catalog_def)
  ultimately show ?thesis
    using prerequisite_for_duplicate_catalog by simp
qed

theorem graph_inversion_witness:
  "\<exists>xs. is_prerequisite_for (enhanced_courses duplicate_catalog ! 2) = Some xs \<and>
     ''AAAA1000'' \<in> set xs"
proof -
  have len: "(0::nat) < length duplicate_catalog" "(2::nat) < length duplicate_catalog"
    by (simp_all add: duplicate_catalog_def)
  have keys: "join_key (duplicate_catalog ! 0) = ''AAAA1000''"
    "join_key (duplicate_catalog ! 2) = ''BBBB2000''"
    using join_keys_duplicate_catalog by (simp_all add: duplicate_catalog_def)
  have tree: "''BBBB2000'' \<in>
      get_all_prerequisite_courses (ast_prerequisites (duplicate_catalog ! 0)) False"
    by (simp add: duplicate_catalog_def record_of_def ast_prerequisites_def)
  from graph_inversion [of 0 duplicate_catalog 2] len keys
  obtain xs where xs: "is_prerequisite_for (enhanced_courses duplicate_catalog ! 2) = Some xs"
    and iff: "''AAAA1000'' \<in> set xs \<longleftrightarrow>
       (\<exists>k < length duplicate_catalog. join_key (duplicate_catalog ! k) = ''AAAA1000'' \<and>
          ''BBBB2000'' \<in>
            get_all_prerequisite_courses (ast_prerequisites (duplicate_catalog ! k)) False)"
    by auto
  from len(1) keys(1) tree have "''AAAA1000'' \<in> set xs"
    unfolding iff by blast
  with xs show ?thesis by blast
qed

section \<open>The combinators\<close>

lemma parse_atomic_leaf: "parse_atomic t = Some n \<Longrightarrow> is_leaf n"
  by (auto simp: parse_atomic_def Let_def split: if_splits option.splits prod.splits)

lemma set_map_filter: "set (List.map_filter f xs) = {y. \<exists>x \<in> set xs. f x = Some y}"
  by (induction xs) (auto simp: List.map_filter_simps split: option.splits)

lemma or_children_leaf: "n \<in> set (or_children t) \<Longrightarrow> is_leaf n"
  by (auto simp: or_children_def set_map_filter dest: parse_atomic_leaf)

lemma is_leaf_well_formed: "is_leaf n \<Longrightarrow> well_formed n"
  by (cases n) simp_all

lemma parse_or_expression_cases:
  "parse_or_expression t = Some n \<Longrightarrow>
     is_leaf n \<or> (\<exists>cs. n = Or cs \<and> 2 \<le> length cs \<and> list_all is_leaf cs)"
proof -
  assume a: "parse_or_expression t = Some n"
  show ?thesis
  proof (cases "or_children t")
    case Nil
    with a show ?thesis
      by (auto simp: parse_or_expression_def split: if_splits dest: parse_atomic_leaf)
  next
    case (Cons c cs)
    note c1 = this
    show ?thesis
    proof (cases cs)
      case Nil
      with c1 a or_children_leaf [of c t] show ?thesis
        by (auto simp: parse_or_expression_def split: if_splits dest: parse_atomic_leaf)
    next
      case (Cons d ds)
      have "list_all is_leaf (or_children t)"
        by (simp add: list_all_iff or_children_leaf)
      with c1 Cons a show ?thesis
        by (auto simp: parse_or_expression_def split: if_splits dest: parse_atomic_leaf)
    qed
  qed
qed

lemma parse_or_expression_well_formed: "parse_or_expression t = Some n \<Longrightarrow> well_formed n"
  using parse_or_expression_cases [of t n]
  by (auto simp: list_all_iff is_leaf_well_formed)

lemma parse_or_expression_not_And: "parse_or_expression t \<noteq> Some (And cs)"
  using parse_or_expression_cases [of t "And cs"] by auto

lemma parse_or_expression_not_single: "parse_or_expression t \<noteq> Some (Or [c])"
  using parse_or_expression_cases [of t "Or [c]"] by auto

lemma and_children_well_formed: "n \<in> set (and_children t) \<Longrightarrow> well_formed n"
  by (auto simp: and_children_def set_map_filter dest: parse_or_expression_well_formed)

lemma and_children_not_single:
  "n \<in> set (and_children t) \<Longrightarrow> n \<noteq> Or [c] \<and> n \<noteq> And cs"
  using parse_or_expression_not_single parse_or_expression_not_And
  by (auto simp: and_children_def set_map_filter)

lemma parse_conjunction_well_formed:
  assumes "parse_conjunction t = Some n" shows "well_formed n"
proof (cases "and_children t")
  case Nil
  with assms show ?thesis
    by (auto simp: parse_conjunction_def split: if_splits dest: parse_or_expression_well_formed)
next
  case (Cons c cs)
  note c1 = this
  have all: "list_all well_formed (and_children t)"
    by (simp add: list_all_iff and_children_well_formed)
  show ?thesis
  proof (cases cs)
    case Nil
    with c1 assms all show ?thesis
      by (auto simp: parse_conjunction_def split: if_splits dest: parse_or_expression_well_formed)
  next
    case (Cons d ds)
    with c1 assms all show ?thesis
      by (auto simp: parse_conjunction_def split: if_splits dest: parse_or_expression_well_formed)
  qed
qed

lemma parse_conjunction_not_single:
  "parse_conjunction t \<noteq> Some (And [c]) \<and> parse_conjunction t \<noteq> Some (Or [c])"
proof (cases "and_children t")
  case Nil
  then show ?thesis
    using parse_or_expression_not_single [of t c] parse_or_expression_not_And [of t "[c]"]
    by (auto simp: parse_conjunction_def split: if_splits)
next
  case (Cons d ds)
  then have "d \<in> set (and_children t)" by simp
  from and_children_not_single [OF this] Cons show ?thesis
    using parse_or_expression_not_single [of t c] parse_or_expression_not_And [of t "[c]"]
    by (cases ds) (auto simp: parse_conjunction_def split: if_splits)
qed

lemma or_parts_empty: "or_parts [] = [[]]"
  by code_simp

text \<open>
  C3 (as amended). When the split on \<open>or\<close> gives several segments and none of them yields
  a node, the disjunction combinator returns exactly what the atomic classifier returns
  for the whole text, a node or \<open>None\<close>; when the split on \<open>and\<close> gives several segments
  and none of them yields a node, the conjunction combinator returns exactly what the
  disjunction combinator returns for the whole text, a node or \<open>None\<close>. With exactly one
  surviving child either combinator returns that child, and neither ever returns a
  conjunction or disjunction of one child.
\<close>

theorem no_survivor_falls_back_to_whole_text:
  "(1 < length (or_parts t) \<and> or_children t = [] \<longrightarrow> parse_or_expression t = parse_atomic t) \<and>
   (1 < length (or_parts t) \<and> or_children t = [c] \<longrightarrow> parse_or_expression t = Some c) \<and>
   (1 < length (split_on_and t) \<and> and_children t = [] \<longrightarrow>
      parse_conjunction t = parse_or_expression t) \<and>
   (1 < length (split_on_and t) \<and> and_children t = [c] \<longrightarrow> parse_conjunction t = Some c) \<and>
   parse_or_expression t \<noteq> Some (Or [d]) \<and> parse_or_expression t \<noteq> Some (And [d]) \<and>
   parse_conjunction t \<noteq> Some (Or [d]) \<and> parse_conjunction t \<noteq> Some (And [d])"
proof -
  have "1 < length (or_parts t) \<Longrightarrow> t \<noteq> []"
    using or_parts_empty by auto
  then have "1 < length (or_parts t) \<and> or_children t = [] \<longrightarrow> parse_or_expression t = parse_atomic t"
    and "1 < length (or_parts t) \<and> or_children t = [c] \<longrightarrow> parse_or_expression t = Some c"
    by (auto simp: parse_or_expression_def)
  moreover have "1 < length (split_on_and t) \<and> and_children t = [] \<longrightarrow>
      parse_conjunction t = parse_or_expression t"
    and "1 < length (split_on_and t) \<and> and_children t = [c] \<longrightarrow> parse_conjunction t = Some c"
    by (auto simp: parse_conjunction_def)
  ultimately show ?thesis
    using parse_or_expression_not_single [of t d] parse_or_expression_not_And [of t "[d]"]
      parse_conjunction_not_single [of t d]
    by blast
qed

lemma x_or_y_parts: "or_parts ''x or y'' = [''x'', ''y'']" by code_simp
lemma x_or_y_children: "or_children ''x or y'' = []" by code_simp
lemma x_or_y_atomic: "parse_atomic ''x or y'' = Some (TextCondition ''x or y'' Other)" by code_simp
lemma x_or_y_result: "parse_or_expression ''x or y'' = Some (TextCondition ''x or y'' Other)" by code_simp
lemma x_and_y_parts: "split_on_and ''x and y'' = [''x'', ''y'']" by code_simp
lemma x_and_y_children: "and_children ''x and y'' = []" by code_simp
lemma x_and_y_result: "parse_conjunction ''x and y'' = Some (TextCondition ''x and y'' Other)" by code_simp
lemma x_or_dot_parts: "or_parts ''x or .'' = [''x'', ''.'']" by code_simp
lemma x_or_dot_children: "or_children ''x or .'' = []" by code_simp
lemma x_or_dot_atomic: "parse_atomic ''x or .'' = None" by code_simp
lemma x_and_dot_parts: "split_on_and ''x and .'' = [''x'', ''.'']" by code_simp
lemma x_and_dot_children: "and_children ''x and .'' = []" by code_simp
lemma x_and_dot_result: "parse_or_expression ''x and .'' = None" by code_simp
lemma one_survivor_parts: "or_parts ''CSCE 1001 or y'' = [''CSCE 1001'', ''y'']" by code_simp
lemma one_survivor_children:
  "or_children ''CSCE 1001 or y'' = [Course ''CSCE1001'' (Some False) (Some False)]" by code_simp

text \<open>
  C3 as stated fails: neither segment of \<open>x or y\<close> yields a node, and the result is the
  text condition made of the whole text, not the absence of a node; likewise for
  \<open>x and y\<close>.
\<close>

theorem no_survivor_counterexample:
  "or_parts ''x or y'' = [''x'', ''y''] \<and> or_children ''x or y'' = [] \<and>
   parse_or_expression ''x or y'' = Some (TextCondition ''x or y'' Other) \<and>
   split_on_and ''x and y'' = [''x'', ''y''] \<and> and_children ''x and y'' = [] \<and>
   parse_conjunction ''x and y'' = Some (TextCondition ''x and y'' Other)"
  by (simp add: x_or_y_parts x_or_y_children x_or_y_result x_and_y_parts x_and_y_children
      x_and_y_result)

theorem no_survivor_falls_back_to_whole_text_witness:
  "parse_or_expression ''x or y'' = Some (TextCondition ''x or y'' Other) \<and>
   parse_or_expression ''x or .'' = None \<and>
   parse_conjunction ''x and .'' = None \<and>
   parse_or_expression ''CSCE 1001 or y'' = Some (Course ''CSCE1001'' (Some False) (Some False))"
proof -
  have "1 < length (or_parts ''x or y'') \<and> or_children ''x or y'' = []"
    by (simp add: x_or_y_parts x_or_y_children)
  with no_survivor_falls_back_to_whole_text [of "''x or y''"]
  have a: "parse_or_expression ''x or y'' = parse_atomic ''x or y''"
    by blast
  have "1 < length (or_parts ''x or .'') \<and> or_children ''x or .'' = []"
    by (simp add: x_or_dot_parts x_or_dot_children)
  with no_survivor_falls_back_to_whole_text [of "''x or .''"]
  have b: "parse_or_expression ''x or .'' = parse_atomic ''x or .''"
    by blast
  have "1 < length (split_on_and ''x and .'') \<and> and_children ''x and .'' = []"
    by (simp add: x_and_dot_parts x_and_dot_children)
  with no_survivor_falls_back_to_whole_text [of "''x and .''"]
  have c: "parse_conjunction ''x and .'' = parse_or_expression ''x and .''"
    by blast
  have "1 < length (or_parts ''CSCE 1001 or y'') \<and>
      or_children ''CSCE 1001 or y'' = [Course ''CSCE1001'' (Some False) (Some False)]"
    by (simp add: one_survivor_parts one_survivor_children)
  with no_survivor_falls_back_to_whole_text
    [of "''CSCE 1001 or y''" "Course ''CSCE1001'' (Some False) (Some False)"]
  have d: "parse_or_expression ''CSCE 1001 or y'' = Some (Course ''CSCE1001'' (Some False) (Some False))"
    by blast
  from a b c d show ?thesis
    by (simp only: x_or_y_atomic x_or_dot_atomic x_and_dot_result simp_thms)
qed

section \<open>Conjunctions and disjunctions of the output\<close>

lemma collect_map:
  assumes "collect (map f cs) = Inr ys"
    and "\<And>c r. c \<in> set cs \<Longrightarrow> f c = Inr r \<Longrightarrow> \<exists>n. r = Some n \<and> P n"
  shows "length ys = length cs \<and> list_all P ys"
  using assms
proof (induction cs arbitrary: ys)
  case Nil
  then show ?case by simp
next
  case (Cons c cs)
  show ?case
  proof (cases "f c")
    case (Inl e)
    with Cons.prems(1) show ?thesis by simp
  next
    case (Inr r)
    then obtain n where n: "r = Some n" "P n"
      using Cons.prems(2) [of c r] by auto
    from Cons.prems(1) Inr obtain zs where zs: "collect (map f cs) = Inr zs" "ys = n # zs"
      by (auto simp: n split: sum.splits)
    from Cons.IH [OF zs(1)] Cons.prems(2) have "length zs = length cs \<and> list_all P zs"
      by auto
    with zs n show ?thesis by simp
  qed
qed

lemma replace_node_well_formed:
  "replace_node pe pm n = Inr r \<Longrightarrow> well_formed n \<Longrightarrow>
   (\<forall>t m. pe t = Inr (Some m) \<longrightarrow> well_formed m) \<Longrightarrow>
   \<exists>n'. r = Some n' \<and> well_formed n'"
proof (induction pe pm n arbitrary: r rule: replace_node.induct)
  case (1 pe pm cc ic io)
  then show ?case
    by (auto split: if_splits option.splits sum.splits)
next
  case (2 pe pm children)
  from "2.prems"(1) obtain ys where ys: "collect (map (replace_node pe pm) children) = Inr ys"
    and r: "r = Some (And ys)"
    by (auto split: sum.splits)
  have "length ys = length children \<and> list_all well_formed ys"
  proof (rule collect_map [OF ys])
    fix c r' assume "c \<in> set children" "replace_node pe pm c = Inr r'"
    with "2.IH" [of c r'] "2.prems"(2,3) show "\<exists>n. r' = Some n \<and> well_formed n"
      by (auto simp: list_all_iff)
  qed
  with r "2.prems"(2) show ?case by simp
next
  case (3 pe pm children)
  from "3.prems"(1) obtain ys where ys: "collect (map (replace_node pe pm) children) = Inr ys"
    and r: "r = Some (Or ys)"
    by (auto split: sum.splits)
  have "length ys = length children \<and> list_all well_formed ys"
  proof (rule collect_map [OF ys])
    fix c r' assume "c \<in> set children" "replace_node pe pm c = Inr r'"
    with "3.IH" [of c r'] "3.prems"(2,3) show "\<exists>n. r' = Some n \<and> well_formed n"
      by (auto simp: list_all_iff)
  qed
  with r "3.prems"(2) show ?case by simp
next
  case (4 pe pm expression)
  show ?case
  proof (cases expression)
    case None
    with "4.prems" show ?thesis by auto
  next
    case (Some a)
    with "4.prems" obtain x where x: "replace_node pe pm a = Inr x" "r = Some (Group x)"
      by (auto split: sum.splits)
    from "4.IH" [OF Some x(1)] "4.prems"(2,3) Some obtain n' where "x = Some n'" "well_formed n'"
      by auto
    with x show ?thesis by simp
  qed
next
  case (5 pe pm c nt)
  then show ?case by auto
next
  case (6 pe pm t cat)
  then show ?case by auto
qed

lemma parse_expression_well_formed:
  "parse_expression depth t = Inr (Some n) \<Longrightarrow> well_formed n"
proof (induction depth arbitrary: t n)
  case 0
  then show ?case by simp
next
  case (Suc depth)
  let ?pe = "parse_expression depth"
  let ?t = "normalise t"
  show ?case
  proof (cases "t \<noteq> [] \<and> CHR ''('' \<in> set ?t \<and> CHR '')'' \<in> set ?t")
    case False
    with Suc.prems show ?thesis
      by (auto simp: Let_def parse_conjunction_well_formed split: if_splits)
  next
    case True
    obtain modified pm where sg: "sub_groups ?t = (modified, pm)"
      by (cases "sub_groups ?t")
    from True Suc.prems sg obtain result where res: "?pe modified = Inr result"
      and rp: "replace_placeholders ?pe result pm = Inr (Some n)"
      by (auto simp: Let_def parse_with_groups_def split: sum.splits)
    from rp obtain n0 where n0: "result = Some n0" "replace_node ?pe pm n0 = Inr (Some n)"
      by (auto simp: replace_placeholders_def split: option.splits)
    from res n0 Suc.IH have "well_formed n0" by blast
    with replace_node_well_formed [of ?pe pm n0 "Some n"] n0 Suc.IH show ?thesis
      by blast
  qed
qed

lemma course_leaf_well_formed: "list_all well_formed (map course_leaf cs)"
  by (simp add: list_all_iff course_leaf_def)

lemma parse_concurrent_well_formed: "parse_concurrent t = Some n \<Longrightarrow> well_formed n"
  by (auto simp: parse_concurrent_def Let_def course_leaf_def list_all_iff split: if_splits)

lemma split_prereq_and_concurrent_well_formed:
  "split_prereq_and_concurrent depth t = Inr (p, c) \<Longrightarrow> well_formed_opt p \<and> well_formed_opt c"
  by (auto simp: split_prereq_and_concurrent_def Let_def well_formed_opt_def
      split: if_splits option.splits sum.splits prod.splits
      dest: parse_concurrent_well_formed parse_expression_well_formed)

text \<open>
  C10. Whenever the parser returns a result, every conjunction and every disjunction in
  its prerequisites tree and in its corequisites tree has at least two children.
\<close>

theorem connectives_have_two_children:
  assumes "parse depth ptext ctext = Inr a"
  shows "well_formed_opt (prerequisites a) \<and> well_formed_opt (corequisites a)"
proof (cases "ptext = [] \<and> ctext = []")
  case True
  with assms show ?thesis
    by (auto simp: parse_def well_formed_opt_def)
next
  case False
  with assms obtain p c where sp:
    "split_prereq_and_concurrent depth (strip ptext) = Inr (p, c)"
    by (auto simp: parse_def Let_def split: sum.splits)
  from split_prereq_and_concurrent_well_formed [OF sp]
  have wf: "well_formed_opt p" "well_formed_opt c" by simp_all
  from False assms sp wf parse_concurrent_well_formed [of ctext] show ?thesis
    by (auto simp: parse_def Let_def well_formed_opt_def split: if_splits option.splits)
qed

lemma parse_two_sources:
  "parse (Suc (Suc 0)) ''CSCE 1001 and MATH 1000 or MATH 2000, and concurrent with PHYS 1000''
     ''CHEM 1000 or CHEM 2000'' =
   Inr \<lparr>prerequisites =
          Some (And [Course ''CSCE1001'' (Some False) (Some False),
                     Or [Course ''MATH1000'' (Some False) (Some False),
                         Course ''MATH2000'' (Some False) (Some False)]]),
        corequisites =
          Some (And [Concurrent (Course ''PHYS1000'' None None) [],
                     Concurrent (Or [Course ''CHEM1000'' None None,
                                     Course ''CHEM2000'' None None]) []]),
        raw_text = ''CSCE 1001 and MATH 1000 or MATH 2000, and concurrent with PHYS 1000 | Concurrent: CHEM 1000 or CHEM 2000'',
        parse_error = None\<rparr>"
  by code_simp

theorem connectives_have_two_children_witness:
  "well_formed_opt
     (Some (And [Course ''CSCE1001'' (Some False) (Some False),
                 Or [Course ''MATH1000'' (Some False) (Some False),
                     Course ''MATH2000'' (Some False) (Some False)]])) \<and>
   well_formed_opt
     (Some (And [Concurrent (Course ''PHYS1000'' None None) [],
                 Concurrent (Or [Course ''CHEM1000'' None None,
                                 Course ''CHEM2000'' None None]) []]))"
  using connectives_have_two_children [OF parse_two_sources] by simp

section \<open>The batch loop\<close>


















lemma strip_empty: "strip [] = []"
  by (simp add: strip_def)























section \<open>Course leaves\<close>

lemma parse_concurrent_one: 
  "parse_concurrent ''CSCE 1001'' = Some (Concurrent (Course ''CSCE1001'' None None) [])"
  by code_simp

lemma parse_atomic_nbsp:
  "parse_atomic (''CSCE'' @ [CHR 0xA0] @ ''1001'') =
     Some (Course (''CSCE'' @ [CHR 0xA0] @ ''1001'') (Some False) (Some False))"
  by code_simp

lemma is_space_nbsp: "is_space (CHR 0xA0)"
  by code_simp

text \<open>
  C9. The concurrent field \<open>CSCE 1001\<close> gives a course leaf inside the concurrent wrapper
  that holds the course code only: the keys \<open>is_concurrent\<close> and \<open>is_optional\<close> are
  absent. Moreover only the character \<open>U+0020\<close> is removed from a matched code, whereas
  the pattern admits any whitespace between letters and digits: with a no-break space
  there, the course code of the leaf keeps it.
\<close>

theorem concurrent_leaf_lacks_flags:
  "parse depth [] ''CSCE 1001'' =
     Inr \<lparr>prerequisites = None,
          corequisites = Some (Concurrent (Course ''CSCE1001'' None None) []),
          raw_text = '' | Concurrent: CSCE 1001'', parse_error = None\<rparr> \<and>
   is_space (CHR 0xA0) \<and>
   parse_atomic (''CSCE'' @ [CHR 0xA0] @ ''1001'') =
     Some (Course (''CSCE'' @ [CHR 0xA0] @ ''1001'') (Some False) (Some False))"
  by (simp add: parse_def split_prereq_and_concurrent_def strip_empty parse_concurrent_one
      is_space_nbsp parse_atomic_nbsp del: append.simps)

theorem concurrent_leaf_lacks_flags_witness:
  "parse 1000 [] ''CSCE 1001'' =
     Inr \<lparr>prerequisites = None,
          corequisites = Some (Concurrent (Course ''CSCE1001'' None None) []),
          raw_text = '' | Concurrent: CSCE 1001'', parse_error = None\<rparr>"
  using concurrent_leaf_lacks_flags [of 1000] by simp

section \<open>Matching literals, repetitions and anchored patterns\<close>

lemma lit_single: "lit [q] = Atom (Lit q)"
  by (simp add: lit_def)

lemma lit_Cons: "qs \<noteq> [] \<Longrightarrow> lit (q # qs) = Seq (Atom (Lit q)) (lit qs)"
  by (cases qs) (simp_all add: lit_def)

lemma rmatch_lit_ci:
  "p \<noteq> [] \<Longrightarrow> rmatch True (lit p) prev s =
     (if ci_prefix p s then [(take (length p) s, [])] else [])"
proof (induction p arbitrary: prev s)
  case Nil
  then show ?case by simp
next
  case (Cons q qs)
  show ?case
  proof (cases qs)
    case Nil
    then show ?thesis
      by (cases s) (auto simp: lit_single ci_prefix_def lower_def)
  next
    case (Cons q' qs')
    then have ne: "qs \<noteq> []" by simp
    show ?thesis
    proof (cases s)
      case Nil
      then show ?thesis
        by (simp add: lit_Cons [OF ne] ci_prefix_def lower_def)
    next
      case (Cons c cs)
      with Cons.IH [OF ne, of "Some c" cs] show ?thesis
        by (auto simp: lit_Cons [OF ne] ci_prefix_def lower_def after_def)
    qed
  qed
qed

lemma rmatch_lit_Seq_ci:
  "p \<noteq> [] \<Longrightarrow> rmatch True (Seq (lit p) r) prev s =
     (if ci_prefix p s
      then map (\<lambda>(c2, g2). (take (length p) s @ c2, g2))
             (rmatch True r (after prev (take (length p) s)) (drop (length (take (length p) s)) s))
      else [])"
  by (simp add: rmatch_lit_ci)

lemma concat_map_empty: "(\<And>x. x \<in> set xs \<Longrightarrow> f x = []) \<Longrightarrow> concat (map f xs) = []"
  by (induction xs) auto

lemma rmatch_Plus_Seq:
  "rmatch ic (Seq (Plus a) r) prev s =
     (let run = takeWhile (atom_ok ic a) s
      in if run = [] then []
         else map (\<lambda>(c2, g2). (run @ c2, g2))
                (rmatch ic r (Some (last run)) (drop (length run) s)) @
              lower_priority ic a r prev s)"
proof (cases "takeWhile (atom_ok ic a) s = []")
  case True
  then show ?thesis by (simp add: Let_def)
next
  case False
  then have "1 \<le> length (takeWhile (atom_ok ic a) s)"
    by (simp add: Suc_le_eq)
  then have "[1..<Suc (length (takeWhile (atom_ok ic a) s))] =
      [1..<length (takeWhile (atom_ok ic a) s)] @ [length (takeWhile (atom_ok ic a) s)]"
    by simp
  with False show ?thesis
    by (simp add: Let_def after_def lower_priority_def del: upt_Suc)
qed

lemma lower_priority_fails:
  assumes "\<And>prev' c s'. atom_ok ic a c \<Longrightarrow> rmatch ic r prev' (c # s') = []"
  shows "lower_priority ic a r prev s = []"
proof -
  let ?run = "takeWhile (atom_ok ic a) s"
  have "rmatch ic r (after prev (take n ?run)) (drop (length (take n ?run)) s) = []"
    if "n \<in> set (rev [1..<length ?run])" for n
  proof -
    from that have n: "n < length ?run" by simp
    then have "n < length s"
      using length_takeWhile_le [of "atom_ok ic a" s] by simp
    then have d: "drop n s = s ! n # drop (Suc n) s"
      by (simp add: Cons_nth_drop_Suc)
    from n have "atom_ok ic a (?run ! n)"
      using nth_mem [of n ?run] set_takeWhileD by fastforce
    with n have "atom_ok ic a (s ! n)"
      by (simp add: takeWhile_nth)
    with assms d n show ?thesis by simp
  qed
  then show ?thesis
    unfolding lower_priority_def Let_def
    by (intro concat_map_empty) auto
qed

lemma rmatch_Bol_Seq:
  "rmatch ic (Seq Bol r) prev s = (if prev = None then rmatch ic r None s else [])"
  by (cases prev) (simp_all add: after_def)

lemma scan_anchored_later: "scan ic (Seq Bol r) (Some x) s = map Chr s"
  by (induction s arbitrary: x) (simp_all add: rmatch_Bol_Seq)

lemma concat_Chr:
  "concat (map (\<lambda>t. case t of Chr x \<Rightarrow> [x] | Hit c g \<Rightarrow> repl) (map Chr s)) = s"
  by (induction s) simp_all

lemma concat_Chr_comp:
  "concat (map ((\<lambda>t. case t of Chr x \<Rightarrow> [x] | Hit c g \<Rightarrow> repl) \<circ> Chr) s) = s"
  by (induction s) simp_all

lemma atom_ok_Space: "atom_ok ic Space = is_space"
  by (rule ext) simp

lemma re_sub_anchored:
  "re_sub ic (Seq Bol r) repl s =
     (case rmatch ic r None s of
        [] \<Rightarrow> s
      | (c, g) # _ \<Rightarrow> repl @ drop (length c) s)"
proof (cases s)
  case Nil
  then show ?thesis
    by (simp add: re_sub_def after_def split: list.splits)
next
  case (Cons x xs)
  then show ?thesis
    by (auto simp: re_sub_def rmatch_Bol_Seq scan_anchored_later concat_Chr_comp
        simp del: rmatch.simps split: list.splits)
qed

lemma rmatch_Star_head:
  "rmatch ic (Star a) prev s =
     (takeWhile (atom_ok ic a) s, []) #
     map (\<lambda>n. (take n (takeWhile (atom_ok ic a) s), [])) (rev [0..<length (takeWhile (atom_ok ic a) s)])"
  by (simp add: Let_def)

lemma ci_prefix_length: "ci_prefix p s \<Longrightarrow> length (take (length p) s) = length p"
  by (metis ci_prefix_def length_map lower_def)

lemma re_sub_label_Star:
  assumes "p \<noteq> []"
  shows "re_sub True (Seq Bol (Seq (lit p) (Star Space))) [] s =
     (if ci_prefix p s then dropWhile is_space (drop (length p) s) else s)"
proof (cases "ci_prefix p s")
  case False
  with assms show ?thesis
    unfolding re_sub_anchored
    by (simp add: rmatch_lit_Seq_ci del: rmatch.simps)
next
  case True
  then have len: "length (take (length p) s) = length p"
    by (rule ci_prefix_length)
  have "drop (length p + length (takeWhile is_space (drop (length p) s))) s =
      dropWhile is_space (drop (length p) s)"
    by (simp add: dropWhile_eq_drop add.commute)
  with True assms len show ?thesis
    unfolding re_sub_anchored
    by (simp add: rmatch_lit_Seq_ci rmatch_Star_head atom_ok_Space del: rmatch.simps)
qed

lemma lower_label2: "lower ''Prerequisite:'' = lower ''prerequisite:''"
  by code_simp

lemma length_label2: "length ''Prerequisite:'' = 13"
  by simp

lemma label2_described: "re_sub True label2_re [] s = drop_label2 s"
proof -
  have re: "label2_re = Seq Bol (Seq (lit ''Prerequisite:'') (Star Space))"
    by (simp add: label2_re_def)
  have ci: "ci_prefix ''Prerequisite:'' s = ci_prefix ''prerequisite:'' s"
    by (simp add: ci_prefix_def lower_label2)
  have "re_sub True label2_re [] s =
      (if ci_prefix ''Prerequisite:'' s
       then dropWhile is_space (drop (length ''Prerequisite:'') s) else s)"
    unfolding re by (rule re_sub_label_Star) simp
  then show ?thesis
    unfolding length_label2 ci drop_label2_def .
qed

lemma first_rest_lit_Seq:
  assumes "p \<noteq> []"
  shows "first_rest (Seq (lit p) r) prev s =
     (if ci_prefix p s
      then first_rest r (after prev (take (length p) s)) (drop (length p) s)
      else None)"
proof (cases "ci_prefix p s")
  case False
  with assms show ?thesis
    by (simp add: first_rest_def rmatch_lit_Seq_ci del: rmatch.simps)
next
  case True
  then have len: "length (take (length p) s) = length p"
    by (rule ci_prefix_length)
  with True assms show ?thesis
    by (auto simp: first_rest_def rmatch_lit_Seq_ci add.commute
        simp del: rmatch.simps split: list.splits)
qed

lemma lower_char_space: "is_space c \<Longrightarrow> lower_char c = c"
  by (auto simp: is_space_def lower_char_def is_upper_def Let_def)

lemma ci_prefix_Cons:
  "ci_prefix (q # qs) (c # cs) \<Longrightarrow> lower_char c = lower_char q"
  by (simp add: ci_prefix_def lower_def)

lemma first_rest_Plus_Space:
  assumes "\<And>c. is_space c \<Longrightarrow> c \<noteq> lower_char q"
  shows "first_rest (Seq (Plus Space) (Seq (lit (q # qs)) r)) prev s =
     (if takeWhile is_space s = [] then None
      else first_rest (Seq (lit (q # qs)) r) (Some (last (takeWhile is_space s)))
             (dropWhile is_space s))"
proof -
  have fails: "rmatch True (Seq (lit (q # qs)) r) prev' (c # s') = []"
    if "atom_ok True Space c" for prev' c s'
  proof -
    from that have sp: "is_space c" by simp
    have "\<not> ci_prefix (q # qs) (c # s')"
    proof
      assume "ci_prefix (q # qs) (c # s')"
      then have "lower_char c = lower_char q" by (rule ci_prefix_Cons)
      with sp assms [of c] show False by (simp add: lower_char_space)
    qed
    then show ?thesis
      by (simp add: rmatch_lit_Seq_ci del: rmatch.simps)
  qed
  have lp: "lower_priority True Space (Seq (lit (q # qs)) r) prev s = []"
    by (rule lower_priority_fails) (rule fails)
  show ?thesis
    unfolding first_rest_def rmatch_Plus_Seq lp
    by (auto simp: Let_def atom_ok_Space dropWhile_eq_drop add.commute
        simp del: rmatch.simps split: list.splits)
qed

lemma first_rest_Star_Space: "first_rest (Star Space) prev s = Some (dropWhile is_space s)"
  by (simp add: first_rest_def rmatch_Star_head atom_ok_Space dropWhile_eq_drop del: rmatch.simps)

lemma re_sub_anchored_first_rest:
  "re_sub True (Seq Bol r) repl s =
     (case first_rest r None s of None \<Rightarrow> s | Some t \<Rightarrow> repl @ t)"
  by (simp add: re_sub_anchored first_rest_def split: list.splits)

lemma takeWhile_empty_dropWhile: "(takeWhile P xs = []) = (dropWhile P xs = xs)"
proof (cases xs)
  case Nil
  then show ?thesis by simp
next
  case (Cons x xs')
  then show ?thesis
    using length_dropWhile_le [of P xs'] by (auto dest: arg_cong [where f = length])
qed

lemma space_not_o: "is_space c \<Longrightarrow> c \<noteq> lower_char CHR ''o''"
proof
  assume "is_space c" "c = lower_char CHR ''o''"
  moreover have "\<not> is_space (lower_char CHR ''o'')" by code_simp
  ultimately show False by simp
qed

lemma space_not_c: "is_space c \<Longrightarrow> c \<noteq> lower_char CHR ''c''"
proof
  assume "is_space c" "c = lower_char CHR ''c''"
  moreover have "\<not> is_space (lower_char CHR ''c'')" by code_simp
  ultimately show False by simp
qed

lemma lower_label1: "lower ''Pre-requisites'' = lower ''pre-requisites''"
  by code_simp

lemma label1_described: "re_sub True label1_re [] s = drop_label1 s"
proof -
  have re: "label1_re =
      Seq Bol (Seq (lit ''Pre-requisites'') (Seq (Plus Space) (Seq (lit ''or'')
        (Seq (Plus Space) (Seq (lit ''concurrent:'') (Star Space))))))"
    by (simp add: label1_re_def)
  have ci: "ci_prefix ''Pre-requisites'' s = ci_prefix ''pre-requisites'' s"
    by (simp add: ci_prefix_def lower_label1)
  have l1: "length ''Pre-requisites'' = 14" and l2: "length ''or'' = 2"
    and l3: "length ''concurrent:'' = 11"
    by simp_all
  have "re_sub True label1_re [] s =
      (case (if ci_prefix ''Pre-requisites'' s
             then (if takeWhile is_space (drop (length ''Pre-requisites'') s) = [] then None
                   else (if ci_prefix ''or'' (dropWhile is_space (drop (length ''Pre-requisites'') s))
                         then (if takeWhile is_space (drop (length ''or'')
                                     (dropWhile is_space (drop (length ''Pre-requisites'') s))) = []
                               then None
                               else (if ci_prefix ''concurrent:''
                                          (dropWhile is_space (drop (length ''or'')
                                             (dropWhile is_space (drop (length ''Pre-requisites'') s))))
                                     then Some (dropWhile is_space (drop (length ''concurrent:'')
                                            (dropWhile is_space (drop (length ''or'')
                                               (dropWhile is_space (drop (length ''Pre-requisites'') s))))))
                                     else None))
                         else None))
             else None)
       of None \<Rightarrow> s | Some t \<Rightarrow> [] @ t)"
    unfolding re re_sub_anchored_first_rest
    by (simp only: first_rest_lit_Seq first_rest_Plus_Space [OF space_not_o]
        first_rest_Plus_Space [OF space_not_c] first_rest_Star_Space list.simps not_False_eq_True
        if_True simp_thms)
  then show ?thesis
    unfolding l1 l2 l3 ci drop_label1_def Let_def takeWhile_empty_dropWhile
    by (simp split: if_splits)
qed

lemma drop_label1_suffix: "\<exists>removed. s = removed @ drop_label1 s"
proof (cases "drop_label1 s = s")
  case True
  then show ?thesis by simp
next
  case False
  then have "drop_label1 s = dropWhile is_space (drop 11 (dropWhile is_space (drop 2
      (dropWhile is_space (drop 14 s)))))"
    by (simp add: drop_label1_def Let_def split: if_splits)
  then show ?thesis
    by (metis append_take_drop_id takeWhile_dropWhile_id append.assoc)
qed

lemma drop_label2_suffix: "\<exists>removed. s = removed @ drop_label2 s"
proof (cases "drop_label2 s = s")
  case True
  then show ?thesis by simp
next
  case False
  then have "drop_label2 s = dropWhile is_space (drop 13 s)"
    by (simp add: drop_label2_def split: if_splits)
  then show ?thesis
    by (metis append_take_drop_id takeWhile_dropWhile_id append.assoc)
qed

lemma normalise_equals_described: "normalise text = normalise_described text"
  by (simp add: normalise_def normalise_described_def label1_described label2_described)

text \<open>
  C8 (as amended). The normalisation is a function of the text alone. It trims the
  whitespace at both ends and then removes, by a case-insensitive match at the start of
  the text, first the label \<open>Pre-requisites or concurrent:\<close> (its words separated by
  whitespace) and then the label \<open>Prerequisite:\<close>, each with the whitespace that follows
  it. What remains is an end piece of the trimmed text, taken as it is: whitespace runs
  inside the text are not collapsed.
\<close>

theorem normalise_is_trim_and_labels:
  "normalise text = drop_label2 (drop_label1 (strip text)) \<and>
   (\<exists>removed. strip text = removed @ normalise text)"
proof -
  have eq: "normalise text = drop_label2 (drop_label1 (strip text))"
    using normalise_equals_described by (simp add: normalise_described_def)
  obtain r1 where r1: "strip text = r1 @ drop_label1 (strip text)"
    using drop_label1_suffix by blast
  obtain r2 where r2: "drop_label1 (strip text) = r2 @ drop_label2 (drop_label1 (strip text))"
    using drop_label2_suffix by blast
  from r1 r2 have "strip text = (r1 @ r2) @ drop_label2 (drop_label1 (strip text))"
    by simp
  with eq show ?thesis by metis
qed

lemma drop_labels_sample:
  "drop_label2 (drop_label1 (strip ''  PREREQUISITE:   Senior    standing ''))
     = ''Senior    standing''"
  by code_simp

theorem normalise_is_trim_and_labels_witness:
  "normalise ''  PREREQUISITE:   Senior    standing '' = ''Senior    standing''"
  using normalise_is_trim_and_labels [of "''  PREREQUISITE:   Senior    standing ''"]
  by (simp only: drop_labels_sample)

text \<open>
  C8 as stated fails: the run of four spaces inside \<open>Senior    standing\<close> is not collapsed
  to one space, and it reaches the condition text of the parsed node.
\<close>

theorem normalise_keeps_whitespace_runs_counterexample:
  "normalise ''Senior    standing'' = ''Senior    standing'' \<and>
   parse_conjunction (normalise ''Senior    standing'') =
     Some (TextCondition ''Senior    standing'' Standing)"
  by code_simp

section \<open>The note pattern\<close>

lemma rmatch_lazy_form:
  "rmatch ic (Seq (Grp k (PlusLazy a)) r) prev s =
     concat (map (lazy_step ic a r k prev s) [1..<Suc (length (takeWhile (atom_ok ic a) s))])"
  by (simp add: Let_def lazy_step_def [abs_def] comp_def split_def del: upt_Suc)

lemma concat_first_hit:
  assumes "i \<le> M" and "M \<le> N" and "\<And>m. i \<le> m \<Longrightarrow> m < M \<Longrightarrow> F m = []"
  shows "concat (map F [i..<Suc N]) = F M @ concat (map F [Suc M..<Suc N])"
proof -
  from assms(1,2) have "[i..<Suc N] = [i..<M] @ [M..<Suc N]"
    using upt_add_eq_append [of i M "Suc N - M"] by simp
  moreover from assms(2) have "[M..<Suc N] = M # [Suc M..<Suc N]"
    by (simp add: upt_conv_Cons)
  moreover have "concat (map F [i..<M]) = []"
    by (rule concat_map_empty) (use assms(3) in auto)
  ultimately show ?thesis by simp
qed

lemma lower_dot: "lower_char CHR ''.'' = CHR ''.''"
  by code_simp

lemma lower_char_dot: "lower_char c = CHR ''.'' \<longleftrightarrow> c = CHR ''.''"
proof
  assume a: "lower_char c = CHR ''.''"
  show "c = CHR ''.''"
  proof (rule ccontr)
    assume ne: "c \<noteq> CHR ''.''"
    with a have up: "is_upper c \<or> (192 \<le> code c \<and> code c \<le> 222 \<and> code c \<noteq> 215)"
      and eq: "char_of (code c + 32) = CHR ''.''"
      by (auto simp: lower_char_def Let_def split: if_splits)
    from eq have "of_char (char_of (code c + 32) :: char) = (of_char (CHR ''.'') :: nat)"
      by simp
    then have "(code c + 32) mod 256 = 46"
      by simp
    with up show False
      by (auto simp: is_upper_def Let_def)
  qed
next
  assume "c = CHR ''.''"
  then show "lower_char c = CHR ''.''" by (simp only: lower_dot)
qed

lemma rmatch_stop_empty: "rmatch True stop_re prev [] = [([], [])]"
  by (simp add: stop_re_def)

lemma rmatch_stop_dot: "\<exists>tl. rmatch True stop_re prev (CHR ''.'' # ys) = ([CHR ''.''], []) # tl"
  by (simp add: stop_re_def lower_dot)

lemma rmatch_stop_other:
  "y \<noteq> CHR ''.'' \<Longrightarrow> y \<noteq> CHR 0x0A \<Longrightarrow> rmatch True stop_re prev (y # ys) = []"
  by (simp add: stop_re_def lower_char_dot lower_dot)

lemma lazy_head:
  assumes nl: "CHR 0x0A \<notin> set (c0 # rest)"
  shows "\<exists>c tl. rmatch True (Seq (Grp 1 (PlusLazy AnyChar)) stop_re) prev (c0 # rest) =
      (c, [(1, c0 # takeWhile (\<lambda>x. x \<noteq> CHR ''.'') rest)]) # tl"
proof -
  let ?u = "c0 # rest"
  let ?tw = "takeWhile (\<lambda>x. x \<noteq> CHR ''.'') rest"
  let ?M = "Suc (length ?tw)"
  let ?F = "lazy_step True AnyChar stop_re 1 prev ?u"
  have run: "takeWhile (atom_ok True AnyChar) ?u = ?u"
    using nl by (auto simp: takeWhile_eq_all_conv)
  have twle: "length ?tw \<le> length rest"
    by (rule length_takeWhile_le)
  have before: "?F m = []" if "1 \<le> m" "m < ?M" for m
  proof -
    from that obtain j where j: "m = Suc j" "j < length ?tw"
      by (cases m) auto
    with twle have jl: "j < length rest" by simp
    from j have "?tw ! j \<in> set ?tw" by simp
    then have nd: "?tw ! j \<noteq> CHR ''.''"
      using set_takeWhileD by fastforce
    from j have same: "?tw ! j = rest ! j"
      by (simp add: takeWhile_nth)
    from jl nl have nn: "rest ! j \<noteq> CHR 0x0A"
      by (metis list.set_intros(2) nth_mem)
    from jl have d: "drop m ?u = rest ! j # drop (Suc j) rest"
      by (simp add: j Cons_nth_drop_Suc)
    from jl have len: "length (take m ?u) = m"
      by (simp add: j)
    show ?thesis
      unfolding lazy_step_def Let_def run len d
      using nd nn same by (simp add: rmatch_stop_other del: rmatch.simps)
  qed
  have "concat (map ?F [1..<Suc (length ?u)]) = ?F ?M @ concat (map ?F [Suc ?M..<Suc (length ?u)])"
    by (rule concat_first_hit) (use twle before in simp_all)
  then have form: "rmatch True (Seq (Grp 1 (PlusLazy AnyChar)) stop_re) prev ?u =
      ?F ?M @ concat (map ?F [Suc ?M..<Suc (length ?u)])"
    unfolding rmatch_lazy_form run .
  have tk: "take ?M ?u = c0 # ?tw"
    by (simp add: takeWhile_eq_take [symmetric])
  have len: "length (take ?M ?u) = ?M"
    using twle by simp
  have dr: "drop (length ?tw) rest = dropWhile (\<lambda>x. x \<noteq> CHR ''.'') rest"
    by (simp add: dropWhile_eq_drop)
  have FM: "?F ?M = map (\<lambda>(c2, g2). ((c0 # ?tw) @ c2, (1, c0 # ?tw) # g2))
      (rmatch True stop_re (after prev (c0 # ?tw)) (dropWhile (\<lambda>x. x \<noteq> CHR ''.'') rest))"
    unfolding lazy_step_def Let_def run len tk
    by (simp add: dr del: rmatch.simps)
  have "\<exists>c tl. ?F ?M = (c, [(1, c0 # ?tw)]) # tl"
  proof (cases "dropWhile (\<lambda>x. x \<noteq> CHR ''.'') rest")
    case Nil
    show ?thesis
      unfolding FM Nil rmatch_stop_empty by simp
  next
    case (Cons y ys)
    then have "y = CHR ''.''"
      using hd_dropWhile [of "\<lambda>x. x \<noteq> CHR ''.''" rest] by auto
    then obtain tl where "rmatch True stop_re (after prev (c0 # ?tw)) (y # ys) = ([CHR ''.''], []) # tl"
      using rmatch_stop_dot by blast
    then show ?thesis
      unfolding FM Cons by simp
  qed
  with form show ?thesis
    by (metis append_Cons)
qed

lemma note_re_form:
  "note_re = Seq (lit ''for'') (Seq (Plus Space) (Seq (Grp 1 (PlusLazy AnyChar)) stop_re))"
  by (simp add: note_re_def stop_re_def)

lemma length_for: "length ''for'' = 3"
  by simp

lemma lit_Plus_no_match:
  assumes "p \<noteq> []"
    and "\<not> (ci_prefix p s \<and> takeWhile is_space (drop (length p) s) \<noteq> [])"
  shows "rmatch True (Seq (lit p) (Seq (Plus Space) r)) prev s = []"
proof (cases "ci_prefix p s")
  case False
  with assms(1) show ?thesis
    by (simp add: rmatch_lit_Seq_ci del: rmatch.simps)
next
  case True
  then have len: "length (take (length p) s) = length p"
    by (rule ci_prefix_length)
  from True assms(2) have "takeWhile is_space (drop (length p) s) = []" by simp
  with True assms(1) len show ?thesis
    by (simp add: rmatch_lit_Seq_ci rmatch_Plus_Seq atom_ok_Space Let_def del: rmatch.simps)
qed

lemma lit_Plus_head:
  assumes "p \<noteq> []" and "ci_prefix p s"
    and "takeWhile is_space (drop (length p) s) \<noteq> []"
    and "rmatch True r (Some (last (takeWhile is_space (drop (length p) s))))
           (dropWhile is_space (drop (length p) s)) = (c, g) # others"
  shows "\<exists>c' tl'. rmatch True (Seq (lit p) (Seq (Plus Space) r)) prev s = (c', g) # tl'"
proof -
  from assms(2) have len: "length (take (length p) s) = length p"
    by (rule ci_prefix_length)
  from assms(4) have "rmatch True r (Some (last (takeWhile is_space (drop (length p) s))))
      (drop (length (takeWhile is_space (drop (length p) s))) (drop (length p) s)) = (c, g) # others"
    by (simp only: dropWhile_eq_drop)
  with assms(1,2,3) len show ?thesis
    by (simp add: rmatch_lit_Seq_ci rmatch_Plus_Seq atom_ok_Space Let_def
        del: rmatch.simps drop_drop)
qed

lemma for_not_empty: "''for'' \<noteq> []"
  by simp

lemma note_no_match:
  assumes "\<not> for_clause_at s"
  shows "rmatch True note_re prev s = []"
proof -
  from assms have "\<not> (ci_prefix ''for'' s \<and> takeWhile is_space (drop 3 s) \<noteq> [])"
    by (simp add: for_clause_at_def)
  from lit_Plus_no_match [of "''for''" s, unfolded length_for, OF for_not_empty this]
  show ?thesis
    unfolding note_re_form .
qed

lemma note_match_head:
  assumes "for_clause_at s" and "dropWhile is_space (drop 3 s) = c0 # rest"
    and "CHR 0x0A \<notin> set s"
  shows "\<exists>c tl. rmatch True note_re prev s =
      (c, [(1, c0 # takeWhile (\<lambda>x. x \<noteq> CHR ''.'') rest)]) # tl"
proof -
  from assms(1) have ci: "ci_prefix ''for'' s" and run: "takeWhile is_space (drop 3 s) \<noteq> []"
    by (simp_all add: for_clause_at_def)
  have "set (c0 # rest) \<subseteq> set s"
    using assms(2) set_dropWhileD set_drop_subset by (metis in_mono subsetI)
  with assms(3) have "CHR 0x0A \<notin> set (c0 # rest)" by blast
  from lazy_head [OF this] obtain c tl where
    "rmatch True (Seq (Grp 1 (PlusLazy AnyChar)) stop_re)
       (Some (last (takeWhile is_space (drop 3 s)))) (c0 # rest) =
     (c, [(1, c0 # takeWhile (\<lambda>x. x \<noteq> CHR ''.'') rest)]) # tl"
    by blast
  with assms(2) have "rmatch True (Seq (Grp 1 (PlusLazy AnyChar)) stop_re)
       (Some (last (takeWhile is_space (drop 3 s)))) (dropWhile is_space (drop 3 s)) =
     (c, [(1, c0 # takeWhile (\<lambda>x. x \<noteq> CHR ''.'') rest)]) # tl"
    by simp
  from lit_Plus_head [of "''for''" s, unfolded length_for, OF for_not_empty ci run this]
  show ?thesis
    unfolding note_re_form .
qed

lemma stop_caps: "(c, g) \<in> set (rmatch True stop_re prev s) \<Longrightarrow> g = []"
  by (auto simp: stop_re_def split: list.splits if_splits)

lemma group_single: "group [(k, t)] k = t"
  by (simp add: group_def)

lemma lazy_caps:
  assumes "(c, g) \<in> set (rmatch True (Seq (Grp 1 (PlusLazy AnyChar)) stop_re) prev s)"
  shows "set (group g 1) \<subseteq> set s"
proof -
  from assms obtain n c2 g2 where
    g: "g = (1, take n (takeWhile (atom_ok True AnyChar) s)) # g2"
    and m: "(c2, g2) \<in> set (rmatch True stop_re
        (after prev (take n (takeWhile (atom_ok True AnyChar) s)))
        (drop (length (take n (takeWhile (atom_ok True AnyChar) s))) s))"
    unfolding rmatch_lazy_form lazy_step_def Let_def by auto
  from stop_caps [OF m] have "g2 = []" .
  with g have "group g 1 = take n (takeWhile (atom_ok True AnyChar) s)"
    by (simp add: group_single)
  then show ?thesis
    by (metis set_take_subset set_takeWhileD subsetI subset_trans)
qed

lemma Plus_Seq_caps:
  assumes "(c, g) \<in> set (rmatch ic (Seq (Plus a) r) prev s)"
  shows "\<exists>n prev' c2. (c2, g) \<in> set (rmatch ic r prev' (drop n s))"
  using assms by (auto simp: Let_def)

lemma lit_Seq_caps:
  assumes "p \<noteq> []" and "(c, g) \<in> set (rmatch True (Seq (lit p) r) prev s)"
  shows "\<exists>prev' c2. (c2, g) \<in> set (rmatch True r prev' (drop (length p) s))"
proof (cases "ci_prefix p s")
  case False
  with assms show ?thesis
    by (simp add: rmatch_lit_Seq_ci del: rmatch.simps)
next
  case True
  then have len: "length (take (length p) s) = length p"
    by (rule ci_prefix_length)
  from assms True show ?thesis
    unfolding rmatch_lit_Seq_ci [OF assms(1)] len
    by (auto simp del: rmatch.simps)
qed

lemma note_caps:
  assumes "(c, g) \<in> set (rmatch True note_re prev s)"
  shows "set (group g 1) \<subseteq> set (drop 3 s)"
proof -
  from assms have "(c, g) \<in> set (rmatch True
      (Seq (lit ''for'') (Seq (Plus Space) (Seq (Grp 1 (PlusLazy AnyChar)) stop_re))) prev s)"
    unfolding note_re_form .
  from lit_Seq_caps [of "''for''", unfolded length_for, OF for_not_empty this]
  obtain prev0 c2 where
    "(c2, g) \<in> set (rmatch True (Seq (Plus Space) (Seq (Grp 1 (PlusLazy AnyChar)) stop_re))
        prev0 (drop 3 s))"
    by blast
  from Plus_Seq_caps [OF this] obtain n prev' c3 where
    "(c3, g) \<in> set (rmatch True (Seq (Grp 1 (PlusLazy AnyChar)) stop_re) prev' (drop n (drop 3 s)))"
    by blast
  from lazy_caps [OF this] show ?thesis
    using set_drop_subset [of n "drop 3 s"] by blast
qed

lemma search_caps:
  "search_at True note_re acc s = Some (b, c, g, a) \<Longrightarrow> set (group g 1) \<subseteq> set (drop 3 s)"
proof (induction s arbitrary: acc)
  case Nil
  have "rmatch True note_re (after None acc) [] = []"
    by (rule note_no_match) (simp add: for_clause_at_def)
  with Nil show ?case
    by (simp del: rmatch.simps)
next
  case (Cons x xs)
  show ?case
  proof (cases "rmatch True note_re (after None acc) (x # xs)")
    case Nil
    with Cons.prems have "search_at True note_re (acc @ [x]) xs = Some (b, c, g, a)"
      by (simp del: rmatch.simps)
    from Cons.IH [OF this] have "set (group g 1) \<subseteq> set (drop 3 xs)" .
    moreover have "set (drop 3 xs) \<subseteq> set (drop 3 (x # xs))"
      using set_drop_subset_set_drop [of 2 3 xs] by (simp add: numeral_3_eq_3 numeral_2_eq_2)
    ultimately show ?thesis by blast
  next
    case (Cons r rs)
    obtain c' g' where r: "r = (c', g')" by (cases r)
    with Cons Cons.prems have "g' = g"
      by (simp del: rmatch.simps)
    with Cons r have "(c', g) \<in> set (rmatch True note_re (after None acc) (x # xs))"
      by simp
    then show ?thesis by (rule note_caps)
  qed
qed

lemma strip_all_space:
  assumes "\<forall>c \<in> set xs. is_space c"
  shows "strip xs = []"
proof -
  from assms have d: "dropWhile is_space xs = []"
    by (simp only: dropWhile_eq_Nil_conv)
  show ?thesis
    unfolding strip_def d by simp
qed

lemma search_note:
  "CHR 0x0A \<notin> set s \<Longrightarrow>
   (case search_at True note_re acc s of
      Some (b, c, g, a) \<Rightarrow> strip (group g 1)
    | None \<Rightarrow> []) = note_described s"
proof (induction s arbitrary: acc)
  case Nil
  have "\<not> for_clause_at []"
    by (simp add: for_clause_at_def)
  from note_no_match [OF this] show ?case
    by (simp del: rmatch.simps)
next
  case (Cons x xs)
  show ?case
  proof (cases "for_clause_at (x # xs)")
    case False
    from note_no_match [OF this] Cons show ?thesis
      using False by (simp del: rmatch.simps)
  next
    case True
    show ?thesis
    proof (cases "dropWhile is_space (drop 3 (x # xs))")
      case Nil
      then have sp: "\<forall>c \<in> set (drop 3 (x # xs)). is_space c"
        by (simp only: dropWhile_eq_Nil_conv)
      have "(case search_at True note_re acc (x # xs) of
               Some (b, c, g, a) \<Rightarrow> strip (group g 1) | None \<Rightarrow> []) = []"
      proof (cases "search_at True note_re acc (x # xs)")
        case None
        then show ?thesis by simp
      next
        case (Some m)
        obtain b c g a where m: "m = (b, c, g, a)" by (cases m)
        with Some have "set (group g 1) \<subseteq> set (drop 3 (x # xs))"
          using search_caps by blast
        with sp have "strip (group g 1) = []"
          by (intro strip_all_space) blast
        with Some m show ?thesis by simp
      qed
      moreover from True Nil have "note_described (x # xs) = []"
        by (simp only: note_described.simps if_True list.case)
      ultimately show ?thesis by (simp only:)
    next
      case (Cons c0 rest)
      from note_match_head [OF True Cons Cons.prems, of "after None acc"] obtain c tl where
        "rmatch True note_re (after None acc) (x # xs) =
           (c, [(1, c0 # takeWhile (\<lambda>x. x \<noteq> CHR ''.'') rest)]) # tl"
        by blast
      then have "(case search_at True note_re acc (x # xs) of
               Some (b, c, g, a) \<Rightarrow> strip (group g 1) | None \<Rightarrow> []) =
             strip (c0 # takeWhile (\<lambda>x. x \<noteq> CHR ''.'') rest)"
        by (simp add: group_single del: rmatch.simps)
      moreover from True Cons have "note_described (x # xs) =
             strip (c0 # takeWhile (\<lambda>x. x \<noteq> CHR ''.'') rest)"
        by (simp only: note_described.simps if_True list.case)
      ultimately show ?thesis by (simp only:)
    qed
  qed
qed

lemma note_described_contains: "note_described s \<noteq> [] \<Longrightarrow> contains (lower s) ''for''"
proof (induction s)
  case Nil
  then show ?case by simp
next
  case (Cons c cs)
  show ?case
  proof (cases "for_clause_at (c # cs)")
    case True
    then have "ci_prefix ''for'' (c # cs)"
      by (simp add: for_clause_at_def)
    then have "lower (take (length ''for'') (c # cs)) = lower ''for''"
      by (simp only: ci_prefix_def)
    moreover have "lower ''for'' = ''for''" by code_simp
    ultimately have "take (length ''for'') (lower (c # cs)) = ''for''"
      by (simp only: lower_def take_map)
    then have "startswith (lower (c # cs)) ''for''"
      by (simp only: startswith_def)
    then have "startswith (lower_char c # lower cs) ''for''"
      by (simp only: lower_def list.map)
    then show ?thesis
      by (simp only: lower_def list.map contains.simps simp_thms)
  next
    case False
    with Cons show ?thesis
      by (simp add: lower_def)
  qed
qed

lemma concurrent_note_described:
  assumes "CHR 0x0A \<notin> set text"
  shows "concurrent_note text = note_described text"
proof (cases "contains (lower text) ''for''")
  case True
  with search_note [OF assms, of "[]"] show ?thesis
    by (simp add: concurrent_note_def re_search_def)
next
  case False
  with note_described_contains [of "text"] show ?thesis
    by (cases "note_described text = []") (simp_all add: concurrent_note_def)
qed

lemma search_none:
  "(\<forall>j. \<not> for_clause_at (drop j s)) \<Longrightarrow> search_at True note_re acc s = None"
proof (induction s arbitrary: acc)
  case Nil
  then have "\<not> for_clause_at []" by (metis drop_Nil)
  from note_no_match [OF this] show ?case
    by (simp del: rmatch.simps)
next
  case (Cons x xs)
  from Cons.prems have "\<not> for_clause_at (drop 0 (x # xs))" by blast
  then have here: "\<not> for_clause_at (x # xs)" by simp
  have "\<forall>j. \<not> for_clause_at (drop j xs)"
  proof
    fix j
    from Cons.prems have "\<not> for_clause_at (drop (Suc j) (x # xs))" by blast
    then show "\<not> for_clause_at (drop j xs)" by simp
  qed
  from Cons.IH [OF this] note_no_match [OF here] show ?case
    by (simp del: rmatch.simps)
qed

lemma concurrent_note_none:
  "(\<forall>j. \<not> for_clause_at (drop j text)) \<Longrightarrow> concurrent_note text = []"
  by (simp add: concurrent_note_def re_search_def search_none)

lemma findall_empty_text: "re_findall False COURSE_PATTERN [] = []"
  by code_simp

text \<open>
  C6 (as amended). For every concurrent-portion text the routine returns no node when the
  text holds no course code, a concurrent node around one course leaf when it holds
  exactly one, and a concurrent node around a disjunction of the course leaves when it
  holds more than one. The note of the node is empty when no \<open>for\<close> (in any case) followed
  by whitespace occurs in the text. In a text without line breaks the note is taken at the
  first such occurrence: it is the text after the whitespace, from its first character up
  to the next period or the end of the text, trimmed. A reason is therefore stored
  verbatim only if no period occurs inside it.
\<close>

theorem concurrent_shape_and_note:
  "(re_findall False COURSE_PATTERN text = [] \<longrightarrow> parse_concurrent text = None) \<and>
   (re_findall False COURSE_PATTERN text = [c] \<longrightarrow>
      parse_concurrent text = Some (Concurrent (course_leaf c) (concurrent_note text))) \<and>
   (1 < length (re_findall False COURSE_PATTERN text) \<longrightarrow>
      parse_concurrent text =
        Some (Concurrent (Or (map course_leaf (re_findall False COURSE_PATTERN text)))
                (concurrent_note text))) \<and>
   ((\<forall>j. \<not> for_clause_at (drop j text)) \<longrightarrow> concurrent_note text = []) \<and>
   (CHR 0x0A \<notin> set text \<longrightarrow> concurrent_note text = note_described text)"
proof -
  have "re_findall False COURSE_PATTERN text = [] \<longrightarrow> parse_concurrent text = None"
    by (simp add: parse_concurrent_def)
  moreover have "re_findall False COURSE_PATTERN text = [c] \<longrightarrow>
      parse_concurrent text = Some (Concurrent (course_leaf c) (concurrent_note text))"
    using findall_empty_text by (auto simp: parse_concurrent_def)
  moreover have "1 < length (re_findall False COURSE_PATTERN text) \<longrightarrow>
      parse_concurrent text =
        Some (Concurrent (Or (map course_leaf (re_findall False COURSE_PATTERN text)))
                (concurrent_note text))"
    using findall_empty_text by (auto simp: parse_concurrent_def Let_def)
  ultimately show ?thesis
    using concurrent_note_none [of "text"] concurrent_note_described [of "text"] by blast
qed

lemma findall_sample:
  "re_findall False COURSE_PATTERN ''CSCE 1001 or CSCE 1002 For lab credit. Majors only'' =
     [''CSCE 1001'', ''CSCE 1002'']"
  by code_simp

lemma note_described_sample:
  "note_described ''CSCE 1001 or CSCE 1002 For lab credit. Majors only'' = ''lab credit''"
  by code_simp

lemma course_leaves_sample:
  "map course_leaf [''CSCE 1001'', ''CSCE 1002''] =
     [Course ''CSCE1001'' None None, Course ''CSCE1002'' None None]"
  by code_simp

theorem concurrent_shape_and_note_witness:
  "parse_concurrent ''CSCE 1001 or CSCE 1002 For lab credit. Majors only'' =
     Some (Concurrent (Or [Course ''CSCE1001'' None None, Course ''CSCE1002'' None None])
             ''lab credit'')"
proof -
  let ?t = "''CSCE 1001 or CSCE 1002 For lab credit. Majors only''"
  have many: "1 < length (re_findall False COURSE_PATTERN ?t)"
    by (simp only: findall_sample) simp
  have nl: "CHR 0x0A \<notin> set ?t"
    by simp
  from concurrent_shape_and_note [of ?t] many nl
  have "parse_concurrent ?t =
      Some (Concurrent (Or (map course_leaf (re_findall False COURSE_PATTERN ?t)))
              (note_described ?t))"
    by metis
  then show ?thesis
    by (simp only: findall_sample note_described_sample course_leaves_sample)
qed

text \<open>
  C6 as stated fails on a reason with a period inside: of the trailing clause
  \<open>for Ph.D. students\<close> only \<open>Ph\<close> reaches the note.
\<close>

theorem note_cut_at_period_counterexample:
  "parse_concurrent ''CSCE 1001 for Ph.D. students'' =
     Some (Concurrent (Course ''CSCE1001'' None None) ''Ph'')"
  by code_simp

end
